theory Spec2Isabelle
  imports Complex_Main "HOL-Library.Multiset"
begin

section \<open>Data model: the tables the services query\<close>

text \<open>
  The services of the repository are static methods that run SQL statements against a
  relational store. A table is a list of rows, a row is a record with the columns the
  statements name. Identifiers are the strings the driver hands to JavaScript; a
  timestamp is the number of seconds since the epoch (\<open>EXTRACT(EPOCH FROM ...)\<close>).
  The schema file is not part of the sources, so no column constraint is built into the
  tables: where a property needs one (a primary key, a unique pair) it is a hypothesis.
  For the same reason the width of the \<open>score\<close> column is not known, and a score is a
  mathematical integer; the ranking expressions are evaluated in exact real arithmetic.
\<close>

type_synonym id = string

record post =
  post_id :: id
  author_id :: id
  submolt_id :: id
  submolt :: string
  title :: string
  content :: "string option"
  url :: "string option"
  post_type :: string
  score :: int
  comment_count :: int
  created_at :: real

record agent =
  agent_id :: id
  name :: string
  display_name :: string
  karma :: int
  follower_count :: int
  following_count :: int

record follow_row =
  follower_id :: id
  followed_id :: id

record subscription =
  sub_agent_id :: id
  sub_submolt_id :: id

record db =
  posts :: "post list"
  agents :: "agent list"
  follows :: "follow_row list"
  subscriptions :: "subscription list"

text \<open>
  The error classes of \<open>utils/errors\<close> that the services throw, and the error the
  driver raises when the database rejects a statement.
\<close>

datatype error =
  BadRequestError string
  | NotFoundError string
  | ForbiddenError string
  | ConflictError string
  | DatabaseError

text \<open>A JavaScript number as the routes produce it: NaN or an integer.\<close>

datatype js_number = NaN | Num int

section \<open>The database helpers\<close>

text \<open>
  Modelled from the spec: \<open>queryOne\<close> of \<open>config/database\<close>, which is not among the
  sources (the spec only names a persistence collaborator that runs parameterized
  queries). Its callers use it for the first row of a statement's result, or null
  when there is none.
\<close>

definition queryOne :: "'a list \<Rightarrow> 'a option" where
  "queryOne rows = (case rows of [] \<Rightarrow> None | r # _ \<Rightarrow> Some r)"

text \<open>
  Modelled from the spec: \<open>transaction\<close> of \<open>config/database\<close>, which is not among
  the sources, as the transactional multi-statement execution of section 6: the
  statements commit together as one state. \<open>autocommit\<close> is a run of statements that
  each go through \<open>queryOne\<close> by themselves: every one of them commits a state.
\<close>

definition transaction :: "(db \<Rightarrow> db) list \<Rightarrow> db \<Rightarrow> db list" where
  "transaction stmts d = [fold (\<lambda>s x. s x) stmts d]"

fun autocommit :: "(db \<Rightarrow> db) list \<Rightarrow> db \<Rightarrow> db list" where
  "autocommit [] d = []"
| "autocommit (s # stmts) d = s d # autocommit stmts (s d)"

text \<open>The store after a request, given the states it committed one after another.\<close>

definition final_state :: "db \<Rightarrow> db list \<Rightarrow> db" where
  "final_state d commits = last (d # commits)"

text \<open>
  \<open>UPDATE t SET ... WHERE c\<close> rewrites every row that satisfies the condition and
  leaves the others; \<open>RETURNING\<close> yields the rewritten rows; \<open>DELETE FROM t WHERE c\<close>
  keeps the rows that do not satisfy the condition.
\<close>

definition sql_update :: "('a \<Rightarrow> bool) \<Rightarrow> ('a \<Rightarrow> 'a) \<Rightarrow> 'a list \<Rightarrow> 'a list" where
  "sql_update c f rows = map (\<lambda>r. if c r then f r else r) rows"

definition sql_returning :: "('a \<Rightarrow> bool) \<Rightarrow> ('a \<Rightarrow> 'a) \<Rightarrow> 'a list \<Rightarrow> 'a list" where
  "sql_returning c f rows = map f (filter c rows)"

definition sql_delete :: "('a \<Rightarrow> bool) \<Rightarrow> 'a list \<Rightarrow> 'a list" where
  "sql_delete c rows = filter (\<lambda>r. \<not> c r) rows"

text \<open>
  \<open>ORDER BY e1 DESC, e2 DESC\<close>: rows are compared by their key lists, larger keys
  first. SQL leaves the order of rows with equal keys open. The model sorts by stable
  insertion, so rows with equal keys stay in the order of the table; that order is
  itself arbitrary, and a list that is already in descending order is returned as it
  is (\<open>order_by_sorted_id\<close> below), so every order the database may return is the
  model's for some order of the table.
\<close>

fun lex_ge :: "real list \<Rightarrow> real list \<Rightarrow> bool" where
  "lex_ge (x # xs) (y # ys) = (x > y \<or> (x = y \<and> lex_ge xs ys))"
| "lex_ge _ _ = True"

fun insert_desc :: "real list \<times> 'a \<Rightarrow> (real list \<times> 'a) list \<Rightarrow> (real list \<times> 'a) list" where
  "insert_desc x [] = [x]"
| "insert_desc x (y # ys) =
     (if lex_ge (fst x) (fst y) then x # y # ys else y # insert_desc x ys)"

definition order_by :: "(real list \<times> 'a) list \<Rightarrow> (real list \<times> 'a) list" where
  "order_by rows = foldr insert_desc rows []"

text \<open>
  \<open>LIMIT $n OFFSET $m\<close> with the parameters the service passes on: the database
  rejects a value that is not a number and a negative one.
\<close>

definition sql_limit_offset :: "js_number \<Rightarrow> js_number \<Rightarrow> 'a list \<Rightarrow> 'a list option" where
  "sql_limit_offset limit offset rows =
     (case (limit, offset) of
        (Num l, Num m) \<Rightarrow>
          if l < 0 \<or> m < 0 then None else Some (take (nat l) (drop (nat m) rows))
      | _ \<Rightarrow> None)"

text \<open>
  The numeric functions of the database that the ranking expressions call, with the
  errors they raise: the logarithm of a number that is not positive, a negative base
  with a fractional exponent or zero with a negative exponent, and division by zero.
  \<open>LOG\<close> is the logarithm to base 10.
\<close>

definition pg_log :: "real \<Rightarrow> real option" where
  "pg_log x = (if x \<le> 0 then None else Some (log 10 x))"

definition pg_power :: "real \<Rightarrow> real \<Rightarrow> real option" where
  "pg_power a b =
     (if a = 0 then (if b < 0 then None else if b = 0 then Some 1 else Some 0)
      else if a < 0 then (if b \<in> \<int> then Some (power_int a \<lfloor>b\<rfloor>) else None)
      else Some (a powr b))"

definition pg_div :: "real \<Rightarrow> real \<Rightarrow> real option" where
  "pg_div a b = (if b = 0 then None else Some (a / b))"

section \<open>PostService\<close>

subsection \<open>Ranking expressions\<close>

text \<open>
  The \<open>ORDER BY\<close> fragments of \<open>getFeed\<close> and \<open>getPersonalizedFeed\<close>:
  \<^item> hot: \<open>LOG(GREATEST(ABS(p.score), 1)) * SIGN(p.score) + EXTRACT(EPOCH FROM p.created_at) / 45000 DESC\<close>
  \<^item> rising: \<open>(p.score + 1) / POWER(EXTRACT(EPOCH FROM (NOW() - p.created_at)) / 3600 + 2, 1.5) DESC\<close>
  \<^item> new: \<open>p.created_at DESC\<close>
  \<^item> top: \<open>p.score DESC, p.created_at DESC\<close> in \<open>getFeed\<close>, \<open>p.score DESC\<close> in
    \<open>getPersonalizedFeed\<close>.
  A key is \<open>None\<close> when its evaluation raises an error in the database.
\<close>

definition hot_key :: "int \<Rightarrow> real \<Rightarrow> real option" where
  "hot_key s t =
     Option.bind (pg_log (real_of_int (max \<bar>s\<bar> 1))) (\<lambda>l.
     Option.bind (pg_div t 45000) (\<lambda>q.
     Some (l * sgn (real_of_int s) + q)))"

definition rising_key :: "real \<Rightarrow> int \<Rightarrow> real \<Rightarrow> real option" where
  "rising_key now s t =
     Option.bind (pg_div (now - t) 3600) (\<lambda>h.
     Option.bind (pg_power (h + 2) 1.5) (\<lambda>w.
     pg_div (real_of_int (s + 1)) w))"

datatype order_clause = OrderNew | OrderTop | OrderTopScoreOnly | OrderRising | OrderHot

fun sort_keys :: "real \<Rightarrow> order_clause \<Rightarrow> post \<Rightarrow> real list option" where
  "sort_keys now OrderNew p = Some [created_at p]"
| "sort_keys now OrderTop p = Some [real_of_int (score p), created_at p]"
| "sort_keys now OrderTopScoreOnly p = Some [real_of_int (score p)]"
| "sort_keys now OrderRising p =
     map_option (\<lambda>k. [k]) (rising_key now (score p) (created_at p))"
| "sort_keys now OrderHot p =
     map_option (\<lambda>k. [k]) (hot_key (score p) (created_at p))"

text \<open>The \<open>switch (sort)\<close> of each of the two methods.\<close>

definition getFeed_orderBy :: "string \<Rightarrow> order_clause" where
  "getFeed_orderBy sort_by =
     (if sort_by = ''new'' then OrderNew
      else if sort_by = ''top'' then OrderTop
      else if sort_by = ''rising'' then OrderRising
      else OrderHot)"

definition getPersonalizedFeed_orderBy :: "string \<Rightarrow> order_clause" where
  "getPersonalizedFeed_orderBy sort_by =
     (if sort_by = ''new'' then OrderNew
      else if sort_by = ''top'' then OrderTopScoreOnly
      else OrderHot)"

subsection \<open>Feed queries\<close>

text \<open>The columns both feed queries select from \<open>posts p JOIN agents a\<close>.\<close>

record feed_item =
  item_id :: id
  item_title :: string
  item_content :: "string option"
  item_url :: "string option"
  item_submolt :: string
  item_post_type :: string
  item_score :: int
  item_comment_count :: int
  item_created_at :: real
  author_name :: string
  author_display_name :: string

definition select_columns :: "post \<times> agent \<Rightarrow> feed_item" where
  "select_columns r =
     \<lparr>item_id = post_id (fst r), item_title = title (fst r), item_content = content (fst r),
      item_url = url (fst r), item_submolt = submolt (fst r),
      item_post_type = post_type (fst r), item_score = score (fst r),
      item_comment_count = comment_count (fst r), item_created_at = created_at (fst r),
      author_name = name (snd r), author_display_name = display_name (snd r)\<rparr>"

text \<open>\<open>FROM posts p JOIN agents a ON p.author_id = a.id WHERE c\<close>.\<close>

definition posts_join_agents :: "db \<Rightarrow> (post \<Rightarrow> bool) \<Rightarrow> (post \<times> agent) list" where
  "posts_join_agents d c =
     [(p, a). p \<leftarrow> posts d, a \<leftarrow> agents d, author_id p = agent_id a, c p]"

text \<open>
  The rest of both queries: evaluate the \<open>ORDER BY\<close> expressions on every candidate
  row (an error in one fails the query), order, cut the window, select the columns.
\<close>

definition ordered_candidates ::
  "real \<Rightarrow> order_clause \<Rightarrow> (post \<times> agent) list \<Rightarrow> (post \<times> agent) list option" where
  "ordered_candidates now ob cands =
     map_option (\<lambda>ks. map snd (order_by (zip ks cands)))
       (those (map (\<lambda>r. sort_keys now ob (fst r)) cands))"

definition run_feed_query ::
  "real \<Rightarrow> order_clause \<Rightarrow> js_number \<Rightarrow> js_number \<Rightarrow> (post \<times> agent) list
     \<Rightarrow> error + feed_item list" where
  "run_feed_query now ob limit offset cands =
     (case ordered_candidates now ob cands of
        None \<Rightarrow> Inl DatabaseError
      | Some rows \<Rightarrow>
          (case sql_limit_offset limit offset rows of
             None \<Rightarrow> Inl DatabaseError
           | Some page \<Rightarrow> Inr (map select_columns page)))"

text \<open>
  \<open>String.prototype.toLowerCase\<close> on the characters of a byte string: the letters A to
  Z; a character outside ASCII is left as it is.
\<close>

definition toLowerCase :: "string \<Rightarrow> string" where
  "toLowerCase s =
     map (\<lambda>c. if 65 \<le> (of_char c :: nat) \<and> (of_char c :: nat) \<le> 90
               then char_of ((of_char c :: nat) + 32) else c) s"

text \<open>
  \<open>PostService.getFeed({sort, limit, offset, submolt})\<close>. \<open>if (submolt)\<close> holds for
  a string that is not empty. The time \<open>now\<close> is what \<open>NOW()\<close> returns in the query.
\<close>

definition getFeed_where :: "string option \<Rightarrow> post \<Rightarrow> bool" where
  "getFeed_where sub p =
     (case sub of
        None \<Rightarrow> True
      | Some s \<Rightarrow> if s = [] then True else submolt p = toLowerCase s)"

definition getFeed ::
  "db \<Rightarrow> real \<Rightarrow> string \<Rightarrow> js_number \<Rightarrow> js_number \<Rightarrow> string option \<Rightarrow> error + feed_item list" where
  "getFeed d now sort_by limit offset sub =
     run_feed_query now (getFeed_orderBy sort_by) limit offset
       (posts_join_agents d (getFeed_where sub))"

text \<open>\<open>PostService.getBySubmolt(submoltName, options)\<close>.\<close>

definition getBySubmolt ::
  "db \<Rightarrow> real \<Rightarrow> string \<Rightarrow> string \<Rightarrow> js_number \<Rightarrow> js_number \<Rightarrow> error + feed_item list" where
  "getBySubmolt d now submoltName sort_by limit offset =
     getFeed d now sort_by limit offset (Some submoltName)"

text \<open>
  \<open>PostService.getPersonalizedFeed(agentId, {sort, limit, offset})\<close>: the two
  \<open>EXISTS\<close> subqueries over \<open>subscriptions\<close> and \<open>follows\<close>.
\<close>

definition personalized_where :: "db \<Rightarrow> id \<Rightarrow> post \<Rightarrow> bool" where
  "personalized_where d agentId p =
     ((\<exists>s\<in>set (subscriptions d). sub_submolt_id s = submolt_id p \<and> sub_agent_id s = agentId)
      \<or> (\<exists>f\<in>set (follows d). followed_id f = author_id p \<and> follower_id f = agentId))"

definition getPersonalizedFeed ::
  "db \<Rightarrow> real \<Rightarrow> id \<Rightarrow> string \<Rightarrow> js_number \<Rightarrow> js_number \<Rightarrow> error + feed_item list" where
  "getPersonalizedFeed d now agentId sort_by limit offset =
     run_feed_query now (getPersonalizedFeed_orderBy sort_by) limit offset
       (posts_join_agents d (personalized_where d agentId))"

subsection \<open>delete and updateScore\<close>

text \<open>
  \<open>PostService.delete(postId, agentId)\<close>: select the author of the post, throw
  NotFound when there is no row, throw Forbidden when the author is another agent, and
  delete the rows of that id otherwise. The result is the store the request leaves
  behind together with its outcome; a throw is \<open>Inl\<close>.
\<close>

definition delete :: "db \<Rightarrow> id \<Rightarrow> id \<Rightarrow> db \<times> (error + unit)" where
  "delete d postId agentId =
     (case queryOne (filter (\<lambda>p. post_id p = postId) (posts d)) of
        None \<Rightarrow> (d, Inl (NotFoundError ''Post''))
      | Some p \<Rightarrow>
          if author_id p \<noteq> agentId
          then (d, Inl (ForbiddenError ''You can only delete your own posts''))
          else (d\<lparr>posts := sql_delete (\<lambda>p. post_id p = postId) (posts d)\<rparr>, Inr ()))"

text \<open>
  \<open>PostService.updateScore(postId, delta)\<close>:
  \<open>UPDATE posts SET score = score + $2 WHERE id = $1 RETURNING score\<close>, then
  \<open>result?.score || 0\<close>. JavaScript's \<open>||\<close> takes the right operand when the left
  one is falsy: undefined (no row came back) and the number 0.
\<close>

definition js_or_zero :: "int option \<Rightarrow> int" where
  "js_or_zero v = (case v of None \<Rightarrow> 0 | Some n \<Rightarrow> if n = 0 then 0 else n)"

definition updateScore :: "db \<Rightarrow> id \<Rightarrow> int \<Rightarrow> db \<times> int" where
  "updateScore d postId delta =
     (let c = (\<lambda>p. post_id p = postId);
          f = (\<lambda>p. p\<lparr>score := score p + delta\<rparr>);
          result = queryOne (sql_returning c f (posts d))
      in (d\<lparr>posts := sql_update c f (posts d)\<rparr>, js_or_zero (map_option score result)))"

section \<open>AgentService: follow and unfollow\<close>

text \<open>
  The statements of the two methods. The \<open>follows\<close> table also has a generated \<open>id\<close>
  column, which is only used to tell whether a row came back; it is left out.
\<close>

definition insert_follow :: "id \<Rightarrow> id \<Rightarrow> db \<Rightarrow> db" where
  "insert_follow followerId followedId d =
     d\<lparr>follows := follows d @ [\<lparr>follower_id = followerId, followed_id = followedId\<rparr>]\<rparr>"

definition delete_follow :: "id \<Rightarrow> id \<Rightarrow> db \<Rightarrow> db" where
  "delete_follow followerId followedId d =
     d\<lparr>follows := sql_delete (\<lambda>f. follower_id f = followerId \<and> followed_id f = followedId)
                    (follows d)\<rparr>"

definition add_following_count :: "id \<Rightarrow> int \<Rightarrow> db \<Rightarrow> db" where
  "add_following_count agentId k d =
     d\<lparr>agents := sql_update (\<lambda>a. agent_id a = agentId)
                   (\<lambda>a. a\<lparr>following_count := following_count a + k\<rparr>) (agents d)\<rparr>"

definition add_follower_count :: "id \<Rightarrow> int \<Rightarrow> db \<Rightarrow> db" where
  "add_follower_count agentId k d =
     d\<lparr>agents := sql_update (\<lambda>a. agent_id a = agentId)
                   (\<lambda>a. a\<lparr>follower_count := follower_count a + k\<rparr>) (agents d)\<rparr>"

text \<open>
  \<open>AgentService.follow(followerId, followedId)\<close>: the self-follow check, the lookup of
  an existing row, then the insert and the two counter updates in one transaction.
  The result is the list of states the request commits, one after another, and its
  outcome (the \<open>action\<close> of the object it returns).
\<close>

definition follow :: "db \<Rightarrow> id \<Rightarrow> id \<Rightarrow> db list \<times> (error + string)" where
  "follow d followerId followedId =
     (if followerId = followedId then ([], Inl (BadRequestError ''Cannot follow yourself''))
      else
        (case queryOne (filter (\<lambda>f. follower_id f = followerId \<and> followed_id f = followedId)
                          (follows d)) of
           Some _ \<Rightarrow> ([], Inr ''already_following'')
         | None \<Rightarrow>
             (transaction
                [insert_follow followerId followedId,
                 add_following_count followerId 1,
                 add_follower_count followedId 1] d,
              Inr ''followed'')))"

text \<open>
  \<open>AgentService.unfollow(followerId, followedId)\<close>: the \<open>DELETE ... RETURNING id\<close> runs
  by itself through \<open>queryOne\<close>; when a row came back, the two counter updates run
  through \<open>queryOne\<close> as well, under \<open>Promise.all\<close>, each a statement of its own.
\<close>

definition unfollow :: "db \<Rightarrow> id \<Rightarrow> id \<Rightarrow> db list \<times> (error + string)" where
  "unfollow d followerId followedId =
     (let result = queryOne (filter (\<lambda>f. follower_id f = followerId \<and> followed_id f = followedId)
                               (follows d));
          d1 = delete_follow followerId followedId d
      in case result of
           None \<Rightarrow> ([d1], Inr ''not_following'')
         | Some _ \<Rightarrow>
             (d1 # autocommit [add_following_count followerId (-1),
                               add_follower_count followedId (-1)] d1,
              Inr ''unfollowed''))"

text \<open>
  The invariant of the denormalized counters: every agent row counts the rows of
  \<open>follows\<close> it is the followed party of, and those it is the follower of.
\<close>

definition counts_consistent :: "db \<Rightarrow> bool" where
  "counts_consistent d =
     (\<forall>a\<in>set (agents d).
        follower_count a = int (length (filter (\<lambda>f. followed_id f = agent_id a) (follows d)))
        \<and> following_count a = int (length (filter (\<lambda>f. follower_id f = agent_id a) (follows d))))"

section \<open>Routes: pagination parameters\<close>

text \<open>
  \<open>parseInt(string, 10)\<close>: skip leading white space, read an optional sign, then the
  longest run of decimal digits; NaN when there is no digit. The characters of a query
  string are modelled as bytes, so the white space of JavaScript is the part of it
  below 256; numbers are exact integers (a double is, up to \<open>2^53\<close>).
\<close>

definition is_white_space :: "char \<Rightarrow> bool" where
  "is_white_space c = ((of_char c :: nat) \<in> {9, 10, 11, 12, 13, 32, 160})"

definition is_digit :: "char \<Rightarrow> bool" where
  "is_digit c = (48 \<le> (of_char c :: nat) \<and> (of_char c :: nat) \<le> 57)"

definition digits_value :: "string \<Rightarrow> int" where
  "digits_value ds = foldl (\<lambda>acc c. 10 * acc + (int (of_char c) - 48)) 0 ds"

definition parseInt :: "string \<Rightarrow> js_number" where
  "parseInt input =
     (let s = dropWhile is_white_space input;
          sign = (if s \<noteq> [] \<and> hd s = CHR ''-'' then -1 else 1);
          s' = (if s \<noteq> [] \<and> (hd s = CHR ''+'' \<or> hd s = CHR ''-'') then tl s else s);
          z = takeWhile is_digit s'
      in if z = [] then NaN else Num (sign * digits_value z))"

text \<open>\<open>Math.min\<close> of two numbers, and \<open>a || b\<close> on numbers (NaN and 0 are falsy).\<close>

definition Math_min :: "js_number \<Rightarrow> js_number \<Rightarrow> js_number" where
  "Math_min a b =
     (case (a, b) of (Num x, Num y) \<Rightarrow> Num (min x y) | _ \<Rightarrow> NaN)"

definition js_or :: "js_number \<Rightarrow> js_number \<Rightarrow> js_number" where
  "js_or a b = (case a of NaN \<Rightarrow> b | Num x \<Rightarrow> if x = 0 then b else a)"

text \<open>\<open>config.pagination.maxLimit\<close>.\<close>

definition maxLimit :: int where
  "maxLimit = 100"

text \<open>
  The query of a feed request: a parameter is absent (\<open>None\<close>, the destructuring
  default applies) or a string. The defaults \<open>limit = 25\<close> and \<open>offset = 0\<close> are
  numbers, which \<open>parseInt\<close> reads through their decimal form.
\<close>

record feed_query =
  q_sort :: "string option"
  q_limit :: "string option"
  q_offset :: "string option"
  q_submolt :: "string option"

definition requested_limit :: "feed_query \<Rightarrow> js_number" where
  "requested_limit q = parseInt (case q_limit q of None \<Rightarrow> ''25'' | Some s \<Rightarrow> s)"

definition requested_offset :: "feed_query \<Rightarrow> js_number" where
  "requested_offset q = parseInt (case q_offset q of None \<Rightarrow> ''0'' | Some s \<Rightarrow> s)"

text \<open>
  The \<open>limit\<close> and \<open>offset\<close> the handlers hand to the service: \<open>GET /posts\<close> uses
  \<open>Math.min(parseInt(limit, 10), config.pagination.maxLimit)\<close>,
  \<open>GET /submolts/:name/feed\<close> uses \<open>Math.min(parseInt(limit, 10), 100)\<close>, and both
  use \<open>parseInt(offset, 10) || 0\<close>.
\<close>

definition posts_limit :: "feed_query \<Rightarrow> js_number" where
  "posts_limit q = Math_min (requested_limit q) (Num maxLimit)"

definition submolt_feed_limit :: "feed_query \<Rightarrow> js_number" where
  "submolt_feed_limit q = Math_min (requested_limit q) (Num 100)"

definition effective_offset :: "feed_query \<Rightarrow> js_number" where
  "effective_offset q = js_or (requested_offset q) (Num 0)"

text \<open>
  The handlers up to the call of the service (the annotation of each item with the
  viewer's vote needs the vote service, which is not among the sources).
\<close>

definition get_posts :: "db \<Rightarrow> real \<Rightarrow> feed_query \<Rightarrow> error + feed_item list" where
  "get_posts d now q =
     getFeed d now (case q_sort q of None \<Rightarrow> ''hot'' | Some s \<Rightarrow> s)
       (posts_limit q) (effective_offset q) (q_submolt q)"

definition get_submolt_feed :: "db \<Rightarrow> real \<Rightarrow> string \<Rightarrow> feed_query \<Rightarrow> error + feed_item list" where
  "get_submolt_feed d now submoltName q =
     getBySubmolt d now submoltName (case q_sort q of None \<Rightarrow> ''hot'' | Some s \<Rightarrow> s)
       (submolt_feed_limit q) (effective_offset q)"

text \<open>What the spec asks of the parameters that reach the query.\<close>

definition pagination_in_bounds :: "js_number \<Rightarrow> js_number \<Rightarrow> bool" where
  "pagination_in_bounds limit offset =
     ((case limit of NaN \<Rightarrow> False | Num l \<Rightarrow> 1 \<le> l \<and> l \<le> maxLimit)
      \<and> (case offset of NaN \<Rightarrow> False | Num m \<Rightarrow> 0 \<le> m))"

section \<open>The vote ledger\<close>

text \<open>
  Modelled from the spec: the vote service (\<open>services/VoteService\<close>) is not among the
  sources; only its callers in the post routes are. The model follows sections 3 and
  4.1 of the spec. A target is a post or a comment with an owner and a net score; a
  vote relates a voter to a target with a direction, at most one per pair, and its
  absence is "no vote". \<open>applyVote\<close> reads the voter's existing direction, takes the
  resulting direction and the score delta from the transition table, stores the vote
  and adds the delta to the target's score in one step, and returns the resulting
  direction and the new score. It fails with NotFound when the target does not exist.
  The spec leaves open whether a vote on one's own content fails with Forbidden, so
  that policy is a parameter.
\<close>

datatype direction = Up | Down

datatype target_type = PostTarget | CommentTarget

record target =
  owner :: id
  net_score :: int

record ledger =
  targets :: "target_type \<times> id \<rightharpoonup> target"
  votes :: "id \<times> target_type \<times> id \<rightharpoonup> direction"

text \<open>
  Modelled from the spec: the transition table of section 4.1 (existing direction,
  requested direction, resulting direction, score delta); the code that computes it,
  in the vote service, is not among the sources.
\<close>

fun transition :: "direction option \<Rightarrow> direction \<Rightarrow> direction option \<times> int" where
  "transition None Up = (Some Up, 1)"
| "transition None Down = (Some Down, -1)"
| "transition (Some Up) Up = (None, -1)"
| "transition (Some Down) Down = (None, 1)"
| "transition (Some Up) Down = (Some Down, -2)"
| "transition (Some Down) Up = (Some Up, 2)"

text \<open>
  Modelled from the spec: \<open>applyVote(voterId, targetId, targetType, direction)\<close> of
  section 4.1, standing for the vote service that is not among the sources. The flag
  \<open>forbid_own\<close> is the self-vote policy the spec leaves open.
\<close>

definition applyVote ::
  "bool \<Rightarrow> ledger \<Rightarrow> id \<Rightarrow> id \<Rightarrow> target_type \<Rightarrow> direction
     \<Rightarrow> ledger \<times> (error + direction option \<times> int)" where
  "applyVote forbid_own l voterId targetId targetType requested =
     (case targets l (targetType, targetId) of
        None \<Rightarrow> (l, Inl (NotFoundError ''Target''))
      | Some t \<Rightarrow>
          if forbid_own \<and> owner t = voterId
          then (l, Inl (ForbiddenError ''Cannot vote on your own content''))
          else
            (let (resulting, delta) = transition (votes l (voterId, targetType, targetId)) requested;
                 new_score = net_score t + delta
             in (l\<lparr>targets := (targets l)((targetType, targetId) \<mapsto> t\<lparr>net_score := new_score\<rparr>),
                   votes := (votes l)((voterId, targetType, targetId) := resulting)\<rparr>,
                 Inr (resulting, new_score))))"

text \<open>A sequence of vote requests, each run on the state the one before left.\<close>

record vote_request =
  voter :: id
  target_id :: id
  target_kind :: target_type
  vote_direction :: direction

fun applyVotes :: "bool \<Rightarrow> ledger \<Rightarrow> vote_request list \<Rightarrow> ledger" where
  "applyVotes forbid_own l [] = l"
| "applyVotes forbid_own l (r # rs) =
     applyVotes forbid_own
       (fst (applyVote forbid_own l (voter r) (target_id r) (target_kind r) (vote_direction r))) rs"

text \<open>
  The deltas a test expects for a sequence of requests on one target: it follows only
  each voter's current direction on that target, starting from \<open>dirs\<close>, and reads the
  delta of a request off the table of section 4.1, written out here entry by entry.
  A request that is refused (\<open>accepts\<close> tells) and a request for another target
  contribute no delta.
\<close>

fun table_delta :: "direction option \<Rightarrow> direction \<Rightarrow> int" where
  "table_delta None Up = 1"
| "table_delta None Down = -1"
| "table_delta (Some Up) Up = -1"
| "table_delta (Some Down) Down = 1"
| "table_delta (Some Up) Down = -2"
| "table_delta (Some Down) Up = 2"

fun table_result :: "direction option \<Rightarrow> direction \<Rightarrow> direction option" where
  "table_result None d = Some d"
| "table_result (Some e) d = (if e = d then None else Some d)"

fun expected_deltas ::
  "(id \<Rightarrow> bool) \<Rightarrow> target_type \<times> id \<Rightarrow> (id \<rightharpoonup> direction) \<Rightarrow> vote_request list \<Rightarrow> int list" where
  "expected_deltas accepts tgt dirs [] = []"
| "expected_deltas accepts tgt dirs (r # rs) =
     (if (target_kind r, target_id r) = tgt \<and> accepts (voter r)
      then table_delta (dirs (voter r)) (vote_direction r)
             # expected_deltas accepts tgt
                 (dirs(voter r := table_result (dirs (voter r)) (vote_direction r))) rs
      else expected_deltas accepts tgt dirs rs)"

definition stored_score :: "ledger \<Rightarrow> target_type \<times> id \<Rightarrow> int option" where
  "stored_score l tgt = map_option net_score (targets l tgt)"

text \<open>
  One row of the transition table, read on \<open>applyVote\<close>: for an existing target that
  the voter may vote on and the given existing direction, the request returns the
  resulting direction and the score changed by the delta, stores that score, and
  leaves the voter's vote in the resulting direction. \<open>vote_for\<close> builds a request and
  \<open>opposite\<close> is the other direction.
\<close>

definition vote_step ::
  "bool \<Rightarrow> ledger \<Rightarrow> id \<Rightarrow> target_type \<times> id \<Rightarrow> direction option \<Rightarrow> direction
     \<Rightarrow> direction option \<Rightarrow> int \<Rightarrow> bool" where
  "vote_step forbid_own l v tgt existing req resulting delta =
     (\<forall>t. targets l tgt = Some t \<and> \<not> (forbid_own \<and> owner t = v) \<and> votes l (v, tgt) = existing
        \<longrightarrow> snd (applyVote forbid_own l v (snd tgt) (fst tgt) req)
              = Inr (resulting, net_score t + delta)
            \<and> stored_score (fst (applyVote forbid_own l v (snd tgt) (fst tgt) req)) tgt
              = Some (net_score t + delta)
            \<and> votes (fst (applyVote forbid_own l v (snd tgt) (fst tgt) req)) (v, tgt) = resulting)"

definition vote_for :: "id \<Rightarrow> target_type \<times> id \<Rightarrow> direction \<Rightarrow> vote_request" where
  "vote_for v tgt d = \<lparr>voter = v, target_id = snd tgt, target_kind = fst tgt, vote_direction = d\<rparr>"

definition opposite :: "direction \<Rightarrow> direction" where
  "opposite d = (case d of Up \<Rightarrow> Down | Down \<Rightarrow> Up)"

section \<open>Example rows\<close>

definition example_post :: "id \<Rightarrow> id \<Rightarrow> id \<Rightarrow> int \<Rightarrow> real \<Rightarrow> post" where
  "example_post pid aid sid s t =
     \<lparr>post_id = pid, author_id = aid, submolt_id = sid, submolt = ''general'',
      title = ''hello'', content = Some ''text'', url = None, post_type = ''text'',
      score = s, comment_count = 0, created_at = t\<rparr>"

definition example_agent :: "id \<Rightarrow> int \<Rightarrow> int \<Rightarrow> agent" where
  "example_agent aid followers following =
     \<lparr>agent_id = aid, name = aid, display_name = aid, karma = 0,
      follower_count = followers, following_count = following\<rparr>"

definition example_db :: "post list \<Rightarrow> db" where
  "example_db ps = \<lparr>posts = ps, agents = [], follows = [], subscriptions = []\<rparr>"

definition example_follow_db :: db where
  "example_follow_db =
     \<lparr>posts = [],
      agents = [example_agent ''a'' 0 1, example_agent ''b'' 1 0],
      follows = [\<lparr>follower_id = ''a'', followed_id = ''b''\<rparr>],
      subscriptions = []\<rparr>"

definition example_feed_db :: db where
  "example_feed_db =
     \<lparr>posts = [example_post ''p1'' ''b'' ''s1'' 5 1000, example_post ''p2'' ''b'' ''s2'' 5 2000,
               example_post ''p3'' ''c'' ''s3'' 9 500, example_post ''p4'' ''c'' ''s4'' 7 3000],
      agents = [example_agent ''a'' 0 1, example_agent ''b'' 1 0, example_agent ''c'' 0 0],
      follows = [\<lparr>follower_id = ''a'', followed_id = ''b''\<rparr>],
      subscriptions = [\<lparr>sub_agent_id = ''a'', sub_submolt_id = ''s3''\<rparr>]\<rparr>"

definition example_item :: "id \<Rightarrow> id \<Rightarrow> int \<Rightarrow> real \<Rightarrow> feed_item" where
  "example_item pid aid s t =
     \<lparr>item_id = pid, item_title = ''hello'', item_content = Some ''text'', item_url = None,
      item_submolt = ''general'', item_post_type = ''text'', item_score = s,
      item_comment_count = 0, item_created_at = t, author_name = aid,
      author_display_name = aid\<rparr>"

definition example_query :: "string option \<Rightarrow> string option \<Rightarrow> string option \<Rightarrow> feed_query" where
  "example_query s l m = \<lparr>q_sort = s, q_limit = l, q_offset = m, q_submolt = None\<rparr>"

definition example_ledger :: ledger where
  "example_ledger =
     \<lparr>targets = [(PostTarget, ''p1'') \<mapsto> \<lparr>owner = ''a'', net_score = 0\<rparr>],
      votes = Map.empty\<rparr>"

section \<open>Facts about the database helpers\<close>

lemma sql_update_none: "\<forall>r\<in>set rows. \<not> c r \<Longrightarrow> sql_update c f rows = rows"
  by (induction rows) (auto simp: sql_update_def)

lemma sql_returning_none: "\<forall>r\<in>set rows. \<not> c r \<Longrightarrow> sql_returning c f rows = []"
  by (induction rows) (auto simp: sql_returning_def)

lemma queryOne_filter_None:
  "queryOne (filter c rows) = None \<longleftrightarrow> (\<forall>r\<in>set rows. \<not> c r)"
proof (cases "filter c rows")
  case Nil
  then show ?thesis by (simp add: queryOne_def filter_empty_conv)
next
  case (Cons r rest)
  then have "r \<in> set (filter c rows)" by simp
  then have "r \<in> set rows \<and> c r" by simp
  with Cons show ?thesis by (auto simp: queryOne_def)
qed

lemma queryOne_filter_Some:
  "queryOne (filter c rows) = Some r \<Longrightarrow> r \<in> set rows \<and> c r"
proof -
  assume "queryOne (filter c rows) = Some r"
  then obtain rest where "filter c rows = r # rest"
    by (auto simp: queryOne_def split: list.splits)
  then have "r \<in> set (filter c rows)" by simp
  then show ?thesis by simp
qed

lemma filter_key_unique:
  "distinct (map k rows) \<Longrightarrow> r \<in> set rows \<Longrightarrow> filter (\<lambda>x. k x = k r) rows = [r]"
proof (induction rows)
  case Nil
  then show ?case by simp
next
  case (Cons x rows)
  show ?case
  proof (cases "x = r")
    case True
    with Cons.prems have "k r \<notin> k ` set rows" by simp
    then have "\<forall>y\<in>set rows. k y \<noteq> k r" by (metis imageI)
    then have "filter (\<lambda>x. k x = k r) rows = []" by (simp add: filter_empty_conv)
    with True show ?thesis by simp
  next
    case False
    with Cons.prems have "r \<in> set rows" and "k x \<noteq> k r" by auto
    with Cons show ?thesis by simp
  qed
qed

lemma queryOne_primary_key:
  "distinct (map k rows) \<Longrightarrow> r \<in> set rows \<Longrightarrow> queryOne (filter (\<lambda>x. k x = k r) rows) = Some r"
  by (simp add: filter_key_unique queryOne_def)

section \<open>Post deletion\<close>

text \<open>
  C8. Deleting a post succeeds only for its owner. The request fails with NotFound
  exactly when no row of \<open>posts\<close> has the id. With \<open>p\<close> the row the author check reads
  (the first row of that id; under a primary key on the id, the post of that id), it
  fails with Forbidden when the agent is not the author of \<open>p\<close>, and otherwise it
  succeeds and leaves the store with every row of that id removed from \<open>posts\<close>, the
  other rows and tables as they were. It succeeds only when the agent is the author of
  a post of that id, and on every failure the store it leaves is the store it found.
\<close>

theorem delete_owner_only:
  "(snd (delete d postId agentId) = Inl (NotFoundError ''Post'')
      \<longleftrightarrow> (\<forall>p\<in>set (posts d). post_id p \<noteq> postId))
   \<and> (\<forall>p. queryOne (filter (\<lambda>p. post_id p = postId) (posts d)) = Some p
          \<and> author_id p \<noteq> agentId
        \<longrightarrow> delete d postId agentId
              = (d, Inl (ForbiddenError ''You can only delete your own posts'')))
   \<and> (\<forall>p. queryOne (filter (\<lambda>p. post_id p = postId) (posts d)) = Some p
          \<and> author_id p = agentId
        \<longrightarrow> delete d postId agentId
              = (d\<lparr>posts := filter (\<lambda>q. post_id q \<noteq> postId) (posts d)\<rparr>, Inr ()))
   \<and> (distinct (map post_id (posts d))
        \<longrightarrow> (\<forall>p\<in>set (posts d). post_id p = postId
               \<longrightarrow> queryOne (filter (\<lambda>p. post_id p = postId) (posts d)) = Some p))
   \<and> (snd (delete d postId agentId) = Inr ()
        \<longrightarrow> (\<exists>p\<in>set (posts d). post_id p = postId \<and> author_id p = agentId)
            \<and> (\<forall>q\<in>set (posts (fst (delete d postId agentId))). post_id q \<noteq> postId))
   \<and> (\<forall>e. snd (delete d postId agentId) = Inl e \<longrightarrow> fst (delete d postId agentId) = d)"
proof (intro conjI allI impI ballI)
  show "snd (delete d postId agentId) = Inl (NotFoundError ''Post'')
      \<longleftrightarrow> (\<forall>p\<in>set (posts d). post_id p \<noteq> postId)"
    using queryOne_filter_None [of "\<lambda>p. post_id p = postId" "posts d"]
    by (auto simp: delete_def split: option.splits)
next
  fix p
  assume "queryOne (filter (\<lambda>p. post_id p = postId) (posts d)) = Some p
          \<and> author_id p \<noteq> agentId"
  then show "delete d postId agentId
      = (d, Inl (ForbiddenError ''You can only delete your own posts''))"
    by (simp add: delete_def)
next
  fix p
  assume "queryOne (filter (\<lambda>p. post_id p = postId) (posts d)) = Some p
          \<and> author_id p = agentId"
  then show "delete d postId agentId
      = (d\<lparr>posts := filter (\<lambda>q. post_id q \<noteq> postId) (posts d)\<rparr>, Inr ())"
    by (simp add: delete_def sql_delete_def)
next
  fix p
  assume "distinct (map post_id (posts d))" and "p \<in> set (posts d)" and "post_id p = postId"
  then show "queryOne (filter (\<lambda>p. post_id p = postId) (posts d)) = Some p"
    using queryOne_primary_key [of post_id "posts d" p] by simp
next
  assume ok: "snd (delete d postId agentId) = Inr ()"
  then obtain p where "queryOne (filter (\<lambda>p. post_id p = postId) (posts d)) = Some p"
    and "author_id p = agentId"
    by (auto simp: delete_def split: option.splits if_splits)
  then show "\<exists>p\<in>set (posts d). post_id p = postId \<and> author_id p = agentId"
    using queryOne_filter_Some by fastforce
next
  fix q
  assume ok: "snd (delete d postId agentId) = Inr ()"
    and q: "q \<in> set (posts (fst (delete d postId agentId)))"
  from ok have "fst (delete d postId agentId)
      = d\<lparr>posts := filter (\<lambda>q. post_id q \<noteq> postId) (posts d)\<rparr>"
    by (auto simp: delete_def sql_delete_def split: option.splits if_splits)
  with q show "post_id q \<noteq> postId" by simp
next
  fix e
  assume "snd (delete d postId agentId) = Inl e"
  then show "fst (delete d postId agentId) = d"
    by (auto simp: delete_def split: option.splits if_splits)
qed

theorem delete_owner_only_witness:
  "delete (example_db [example_post ''p1'' ''a1'' ''s1'' 3 100]) ''p1'' ''a2''
     = (example_db [example_post ''p1'' ''a1'' ''s1'' 3 100],
        Inl (ForbiddenError ''You can only delete your own posts''))
   \<and> snd (delete (example_db [example_post ''p1'' ''a1'' ''s1'' 3 100]) ''p2'' ''a1'')
     = Inl (NotFoundError ''Post'')
   \<and> fst (delete (example_db [example_post ''p1'' ''a1'' ''s1'' 3 100]) ''p2'' ''a1'')
     = example_db [example_post ''p1'' ''a1'' ''s1'' 3 100]
   \<and> delete (example_db [example_post ''p1'' ''a1'' ''s1'' 3 100]) ''p1'' ''a1''
     = (example_db [], Inr ())"
proof -
  let ?p = "example_post ''p1'' ''a1'' ''s1'' 3 100"
  let ?d = "example_db [?p]"
  have ids: "distinct (map post_id (posts ?d))" and mem: "?p \<in> set (posts ?d)"
    and pid: "post_id ?p = ''p1''"
    by (simp_all add: example_db_def example_post_def)
  have q: "queryOne (filter (\<lambda>p. post_id p = ''p1'') (posts ?d)) = Some ?p"
    using delete_owner_only [of ?d "''p1''" "''a1''"] ids mem pid by blast
  have a: "author_id ?p = ''a1''" by (simp add: example_post_def)
  have n: "\<forall>p\<in>set (posts ?d). post_id p \<noteq> ''p2''"
    by (simp add: example_db_def example_post_def)
  have forbidden: "delete ?d ''p1'' ''a2''
      = (?d, Inl (ForbiddenError ''You can only delete your own posts''))"
    using delete_owner_only [of ?d "''p1''" "''a2''"] q a by simp
  have missing: "snd (delete ?d ''p2'' ''a1'') = Inl (NotFoundError ''Post'')"
    using delete_owner_only [of ?d "''p2''" "''a1''"] n by blast
  then have unchanged: "fst (delete ?d ''p2'' ''a1'') = ?d"
    using delete_owner_only [of ?d "''p2''" "''a1''"] by blast
  have "delete ?d ''p1'' ''a1''
      = (?d\<lparr>posts := filter (\<lambda>q. post_id q \<noteq> ''p1'') (posts ?d)\<rparr>, Inr ())"
    using delete_owner_only [of ?d "''p1''" "''a1''"] q a by blast
  then have removed: "delete ?d ''p1'' ''a1'' = (example_db [], Inr ())"
    by (simp add: example_db_def example_post_def)
  from forbidden unchanged missing removed show ?thesis by blast
qed

section \<open>Score update on a missing post\<close>

text \<open>
  C10. \<open>updateScore\<close> has no failure branch: for an id that no post row carries it
  returns 0 and the store it was given, and for an existing post whose score becomes 0
  it returns 0 as well, so the result 0 does not tell the two cases apart.
\<close>

theorem updateScore_missing_post:
  "((\<forall>p\<in>set (posts d). post_id p \<noteq> postId) \<longrightarrow> updateScore d postId delta = (d, 0))
   \<and> (\<forall>p. queryOne (filter (\<lambda>p. post_id p = postId) (posts d)) = Some p
           \<and> score p + delta = 0
         \<longrightarrow> snd (updateScore d postId delta) = 0
             \<and> (\<exists>q\<in>set (posts (fst (updateScore d postId delta))).
                    post_id q = postId \<and> score q = 0))"
proof (intro conjI allI impI)
  assume none: "\<forall>p\<in>set (posts d). post_id p \<noteq> postId"
  have "sql_update (\<lambda>p. post_id p = postId) (\<lambda>p. p\<lparr>score := score p + delta\<rparr>) (posts d) = posts d"
    using none by (intro sql_update_none) simp
  moreover have "sql_returning (\<lambda>p. post_id p = postId) (\<lambda>p. p\<lparr>score := score p + delta\<rparr>) (posts d) = []"
    using none by (intro sql_returning_none) simp
  ultimately show "updateScore d postId delta = (d, 0)"
    by (simp add: updateScore_def queryOne_def js_or_zero_def)
next
  fix p
  assume h: "queryOne (filter (\<lambda>p. post_id p = postId) (posts d)) = Some p
           \<and> score p + delta = 0"
  then obtain rest where f: "filter (\<lambda>p. post_id p = postId) (posts d) = p # rest"
    by (auto simp: queryOne_def split: list.splits)
  then show "snd (updateScore d postId delta) = 0"
    using h by (simp add: updateScore_def sql_returning_def queryOne_def js_or_zero_def)
next
  fix p
  assume h: "queryOne (filter (\<lambda>p. post_id p = postId) (posts d)) = Some p
           \<and> score p + delta = 0"
  then have m: "p \<in> set (posts d) \<and> post_id p = postId"
    using queryOne_filter_Some [of "\<lambda>p. post_id p = postId" "posts d" p] by simp
  then have "p\<lparr>score := score p + delta\<rparr>
      \<in> set (sql_update (\<lambda>p. post_id p = postId) (\<lambda>p. p\<lparr>score := score p + delta\<rparr>) (posts d))"
    by (force simp: sql_update_def)
  then show "\<exists>q\<in>set (posts (fst (updateScore d postId delta))). post_id q = postId \<and> score q = 0"
    using h m
    by (auto simp: updateScore_def Let_def intro!: bexI [of _ "p\<lparr>score := score p + delta\<rparr>"])
qed

theorem updateScore_missing_post_witness:
  "updateScore (example_db [example_post ''p1'' ''a1'' ''s1'' 1 100]) ''p2'' (-1)
     = (example_db [example_post ''p1'' ''a1'' ''s1'' 1 100], 0)
   \<and> snd (updateScore (example_db [example_post ''p1'' ''a1'' ''s1'' 1 100]) ''p1'' (-1)) = 0"
proof -
  let ?p = "example_post ''p1'' ''a1'' ''s1'' 1 100"
  let ?d = "example_db [?p]"
  have n: "\<forall>p\<in>set (posts ?d). post_id p \<noteq> ''p2''"
    by (simp add: example_db_def example_post_def)
  have q: "queryOne (filter (\<lambda>p. post_id p = ''p1'') (posts ?d)) = Some ?p \<and> score ?p + (-1) = 0"
    by (simp add: queryOne_def example_db_def example_post_def)
  have "updateScore ?d ''p2'' (-1) = (?d, 0)"
    using updateScore_missing_post [of ?d "''p2''" "-1"] n by blast
  moreover have "snd (updateScore ?d ''p1'' (-1)) = 0"
    using updateScore_missing_post [of ?d "''p1''" "-1"] q by blast
  ultimately show ?thesis by blast
qed

section \<open>Follower counters\<close>

lemma length_filter_delete_unique:
  "distinct rows \<Longrightarrow> r \<in> set rows \<Longrightarrow>
   length (filter c rows) = length (filter c (filter (\<lambda>x. x \<noteq> r) rows)) + (if c r then 1 else 0)"
proof (induction rows)
  case Nil
  then show ?case by simp
next
  case (Cons x rows)
  show ?case
  proof (cases "x = r")
    case True
    with Cons.prems have "r \<notin> set rows" by simp
    then have "filter (\<lambda>x. x \<noteq> r) rows = rows" by (auto simp: filter_id_conv)
    with True show ?thesis by simp
  next
    case False
    with Cons show ?thesis by simp
  qed
qed

lemma agents_after_counts:
  assumes "a \<in> set (agents (add_follower_count y k (add_following_count x j d)))"
  shows "\<exists>a0\<in>set (agents d). agent_id a = agent_id a0
     \<and> follower_count a = follower_count a0 + (if agent_id a0 = y then k else 0)
     \<and> following_count a = following_count a0 + (if agent_id a0 = x then j else 0)"
proof -
  let ?h1 = "\<lambda>a. if agent_id a = x then a\<lparr>following_count := following_count a + j\<rparr> else a"
  let ?h2 = "\<lambda>a. if agent_id a = y then a\<lparr>follower_count := follower_count a + k\<rparr> else a"
  have "agents (add_follower_count y k (add_following_count x j d))
      = map ?h2 (map ?h1 (agents d))"
    by (simp add: add_follower_count_def add_following_count_def sql_update_def)
  with assms obtain a0 where a0: "a0 \<in> set (agents d)" and a: "a = ?h2 (?h1 a0)"
    by auto
  have "agent_id a = agent_id a0" using a by simp
  moreover have "follower_count a = follower_count a0 + (if agent_id a0 = y then k else 0)"
    using a by simp
  moreover have "following_count a = following_count a0 + (if agent_id a0 = x then j else 0)"
    using a by simp
  ultimately show ?thesis using a0 by blast
qed

lemma follows_after_counts:
  "follows (add_follower_count y k d) = follows d"
  "follows (add_following_count x j d) = follows d"
  by (simp_all add: add_follower_count_def add_following_count_def)

lemma follow_commits:
  "fst (follow d x y) =
     (if x = y \<or> (\<exists>f\<in>set (follows d). follower_id f = x \<and> followed_id f = y)
      then []
      else [add_follower_count y 1 (add_following_count x 1 (insert_follow x y d))])"
proof (cases "queryOne (filter (\<lambda>f. follower_id f = x \<and> followed_id f = y) (follows d))")
  case None
  then have "\<not> (\<exists>f\<in>set (follows d). follower_id f = x \<and> followed_id f = y)"
    by (simp add: queryOne_filter_None)
  with None show ?thesis by (simp add: follow_def transaction_def)
next
  case (Some r)
  then have "\<exists>f\<in>set (follows d). follower_id f = x \<and> followed_id f = y"
    using queryOne_filter_Some [of _ "follows d" r] by blast
  with Some show ?thesis by (simp add: follow_def)
qed

lemma unfollow_commits:
  "fst (unfollow d x y) =
     (if \<forall>f\<in>set (follows d). \<not> (follower_id f = x \<and> followed_id f = y)
      then [delete_follow x y d]
      else [delete_follow x y d,
            add_following_count x (-1) (delete_follow x y d),
            add_follower_count y (-1) (add_following_count x (-1) (delete_follow x y d))])"
  using queryOne_filter_None [of "\<lambda>f. follower_id f = x \<and> followed_id f = y" "follows d"]
  by (auto simp: unfollow_def Let_def split: option.splits)

text \<open>
  Every state a \<open>follow\<close> request commits keeps the counters equal to the row counts:
  the insert and both updates are one transaction.
\<close>

lemma follow_keeps_counts:
  assumes "counts_consistent d" and "d' \<in> set (fst (follow d x y))"
  shows "counts_consistent d'"
proof -
  let ?r = "\<lparr>follower_id = x, followed_id = y\<rparr>"
  let ?d1 = "insert_follow x y d"
  let ?d3 = "add_follower_count y 1 (add_following_count x 1 ?d1)"
  from assms(2) have d': "d' = ?d3"
    by (simp add: follow_commits split: if_splits)
  have ins: "int (length (filter c (follows ?d3)))
      = int (length (filter c (follows d))) + (if c ?r then 1 else 0)" for c
    by (simp add: follows_after_counts insert_follow_def)
  have "counts_consistent ?d3"
    unfolding counts_consistent_def
  proof (intro ballI conjI)
    fix a
    assume "a \<in> set (agents ?d3)"
    then obtain a0 where a0: "a0 \<in> set (agents ?d1)" "agent_id a = agent_id a0"
      "follower_count a = follower_count a0 + (if agent_id a0 = y then 1 else 0)"
      "following_count a = following_count a0 + (if agent_id a0 = x then 1 else 0)"
      using agents_after_counts [of a y 1 x 1 ?d1] by auto
    from a0(1) have "a0 \<in> set (agents d)" by (simp add: insert_follow_def)
    with assms(1) have c0:
      "follower_count a0 = int (length (filter (\<lambda>f. followed_id f = agent_id a0) (follows d)))"
      "following_count a0 = int (length (filter (\<lambda>f. follower_id f = agent_id a0) (follows d)))"
      by (simp_all add: counts_consistent_def)
    show "follower_count a = int (length (filter (\<lambda>f. followed_id f = agent_id a) (follows ?d3)))"
      unfolding ins using a0 c0 by auto
    show "following_count a = int (length (filter (\<lambda>f. follower_id f = agent_id a) (follows ?d3)))"
      unfolding ins using a0 c0 by auto
  qed
  with d' show ?thesis by simp
qed

text \<open>
  The last state an \<open>unfollow\<close> request commits keeps them equal too, when no pair
  occurs twice in \<open>follows\<close>.
\<close>

lemma unfollow_keeps_counts:
  assumes "counts_consistent d" and "distinct (follows d)"
  shows "counts_consistent (final_state d (fst (unfollow d x y)))"
proof (cases "\<forall>f\<in>set (follows d). \<not> (follower_id f = x \<and> followed_id f = y)")
  case True
  then have "filter (\<lambda>r. \<not> (follower_id r = x \<and> followed_id r = y)) (follows d) = follows d"
    by (simp add: filter_id_conv)
  with True assms show ?thesis
    by (simp add: unfollow_commits final_state_def delete_follow_def sql_delete_def
        counts_consistent_def)
next
  case False
  then obtain r where r: "r \<in> set (follows d)" "follower_id r = x" "followed_id r = y"
    by auto
  from r(2,3) have req: "r = \<lparr>follower_id = x, followed_id = y\<rparr>" by (cases r) simp
  have eq: "(\<lambda>f. \<not> (follower_id f = x \<and> followed_id f = y)) = (\<lambda>f. f \<noteq> r)"
    using req by (auto simp: fun_eq_iff)
  let ?d1 = "delete_follow x y d"
  let ?d3 = "add_follower_count y (-1) (add_following_count x (-1) ?d1)"
  have del: "int (length (filter c (follows ?d3)))
      = int (length (filter c (follows d))) - (if c r then 1 else 0)" for c
    unfolding follows_after_counts delete_follow_def sql_delete_def eq
    using length_filter_delete_unique [OF assms(2) r(1), of c] by simp
  have "counts_consistent ?d3"
    unfolding counts_consistent_def
  proof (intro ballI conjI)
    fix a
    assume "a \<in> set (agents ?d3)"
    then obtain a0 where a0: "a0 \<in> set (agents ?d1)" "agent_id a = agent_id a0"
      "follower_count a = follower_count a0 + (if agent_id a0 = y then -1 else 0)"
      "following_count a = following_count a0 + (if agent_id a0 = x then -1 else 0)"
      using agents_after_counts [of a y "-1" x "-1" ?d1] by auto
    from a0(1) have "a0 \<in> set (agents d)" by (simp add: delete_follow_def)
    with assms(1) have c0:
      "follower_count a0 = int (length (filter (\<lambda>f. followed_id f = agent_id a0) (follows d)))"
      "following_count a0 = int (length (filter (\<lambda>f. follower_id f = agent_id a0) (follows d)))"
      by (simp_all add: counts_consistent_def)
    show "follower_count a = int (length (filter (\<lambda>f. followed_id f = agent_id a) (follows ?d3)))"
      unfolding del using a0 c0 r by auto
    show "following_count a = int (length (filter (\<lambda>f. follower_id f = agent_id a) (follows ?d3)))"
      unfolding del using a0 c0 r by auto
  qed
  moreover have "fst (unfollow d x y) = [?d1, add_following_count x (-1) ?d1, ?d3]"
    unfolding unfollow_commits by (simp only: False if_False)
  ultimately show ?thesis by (simp add: final_state_def)
qed

text \<open>
  C7. The counters and the relation are meant to change together. \<open>follow\<close> does so
  (\<open>follow_keeps_counts\<close>), and \<open>unfollow\<close> ends in a consistent state
  (\<open>unfollow_keeps_counts\<close>), but \<open>unfollow\<close> runs its three statements outside a
  transaction. With agent a following agent b, counters in step with the one row:
  \<open>unfollow(a, b)\<close> commits three states in turn; in the first the row is gone while
  a's \<open>following_count\<close> and b's \<open>follower_count\<close> are still 1, in the second b's
  \<open>follower_count\<close> is still 1, and only the third is consistent again. (The two
  updates run under \<open>Promise.all\<close> and may commit in either order; the first state
  is the same in both.)
\<close>

theorem unfollow_commits_inconsistent_states:
  "counts_consistent example_follow_db
   \<and> distinct (follows example_follow_db)
   \<and> fst (unfollow example_follow_db ''a'' ''b'')
       = [example_follow_db\<lparr>follows := []\<rparr>,
          example_follow_db\<lparr>follows := [],
             agents := [example_agent ''a'' 0 0, example_agent ''b'' 1 0]\<rparr>,
          example_follow_db\<lparr>follows := [],
             agents := [example_agent ''a'' 0 0, example_agent ''b'' 0 0]\<rparr>]
   \<and> \<not> counts_consistent (example_follow_db\<lparr>follows := []\<rparr>)
   \<and> \<not> counts_consistent (example_follow_db\<lparr>follows := [],
             agents := [example_agent ''a'' 0 0, example_agent ''b'' 1 0]\<rparr>)
   \<and> counts_consistent (example_follow_db\<lparr>follows := [],
             agents := [example_agent ''a'' 0 0, example_agent ''b'' 0 0]\<rparr>)"
  by (simp add: unfollow_def queryOne_def delete_follow_def sql_delete_def sql_update_def
      add_following_count_def add_follower_count_def counts_consistent_def
      example_follow_db_def example_agent_def)

theorem unfollow_commits_inconsistent_states_witness:
  "\<not> counts_consistent (hd (fst (unfollow example_follow_db ''a'' ''b'')))"
  using unfollow_commits_inconsistent_states by simp

section \<open>Pagination parameters of the feed routes\<close>

lemmas parse_simps = parseInt_def is_white_space_def is_digit_def digits_value_def Let_def

lemmas feed_simps =
  get_posts_def get_submolt_feed_def getBySubmolt_def getFeed_def getPersonalizedFeed_def
  run_feed_query_def ordered_candidates_def sql_limit_offset_def getFeed_orderBy_def
  getPersonalizedFeed_orderBy_def posts_join_agents_def getFeed_where_def
  personalized_where_def order_by_def select_columns_def hot_key_def pg_log_def pg_div_def

lemmas example_simps =
  example_feed_db_def example_post_def example_agent_def example_item_def example_query_def

text \<open>
  C6, as the claim states it, fails: the handlers bound the limit from above only, and
  replace only an offset that is NaN (or 0). A request with \<open>limit=0\<close> and
  \<open>offset=-3\<close> hands the limit 0 and the offset -3 to the service, and a request with
  \<open>limit=0\<close> runs its query with \<open>LIMIT 0\<close>: the page is empty although posts
  exist.
\<close>

theorem pagination_bounds_counterexample:
  "posts_limit (example_query None (Some ''0'') (Some ''-3'')) = Num 0
   \<and> submolt_feed_limit (example_query None (Some ''0'') (Some ''-3'')) = Num 0
   \<and> effective_offset (example_query None (Some ''0'') (Some ''-3'')) = Num (-3)
   \<and> \<not> pagination_in_bounds (posts_limit (example_query None (Some ''0'') (Some ''-3'')))
         (effective_offset (example_query None (Some ''0'') (Some ''-3'')))
   \<and> get_posts example_feed_db 4000 (example_query (Some ''new'') (Some ''0'') None) = Inr []
   \<and> get_posts example_feed_db 4000 (example_query (Some ''new'') (Some ''1'') None)
       = Inr [example_item ''p4'' ''c'' 7 3000]"
  by (simp add: posts_limit_def submolt_feed_limit_def effective_offset_def requested_limit_def
      requested_offset_def Math_min_def js_or_def maxLimit_def pagination_in_bounds_def
      parse_simps feed_simps example_simps)

text \<open>
  C6, amended. The effective limit is \<open>min(parseInt(limit), max)\<close>, with \<open>max\<close> the
  configured maximum 100 on \<open>GET /posts\<close> and the literal 100 on the submolt feed: it
  never exceeds the maximum, a requested limit below 1 is passed on as it is, and one
  that does not parse is passed on as NaN. The effective offset is
  \<open>parseInt(offset)\<close>, with NaN replaced by 0, so a negative offset is passed on as it
  is. Hence the parameters that reach the query satisfy \<open>1 \<le> limit \<le> max\<close> and
  \<open>offset \<ge> 0\<close> exactly when the requested limit parses to a number that is at least
  1 and the requested offset does not parse to a negative number.
\<close>

theorem pagination_effective_parameters:
  "(\<forall>n. requested_limit q = Num n
        \<longrightarrow> posts_limit q = Num (min n maxLimit) \<and> submolt_feed_limit q = Num (min n 100))
   \<and> (requested_limit q = NaN \<longrightarrow> posts_limit q = NaN \<and> submolt_feed_limit q = NaN)
   \<and> (\<forall>n. posts_limit q = Num n \<longrightarrow> n \<le> maxLimit)
   \<and> (\<forall>n. submolt_feed_limit q = Num n \<longrightarrow> n \<le> 100)
   \<and> (\<forall>m. requested_offset q = Num m \<longrightarrow> effective_offset q = Num m)
   \<and> (requested_offset q = NaN \<longrightarrow> effective_offset q = Num 0)
   \<and> (pagination_in_bounds (posts_limit q) (effective_offset q)
        \<longleftrightarrow> (\<exists>n. requested_limit q = Num n \<and> 1 \<le> n)
            \<and> (\<forall>m. requested_offset q = Num m \<longrightarrow> 0 \<le> m))
   \<and> (pagination_in_bounds (submolt_feed_limit q) (effective_offset q)
        \<longleftrightarrow> (\<exists>n. requested_limit q = Num n \<and> 1 \<le> n)
            \<and> (\<forall>m. requested_offset q = Num m \<longrightarrow> 0 \<le> m))"
proof -
  have lim: "posts_limit q = (case requested_limit q of NaN \<Rightarrow> NaN | Num n \<Rightarrow> Num (min n maxLimit))"
    by (simp add: posts_limit_def Math_min_def split: js_number.splits)
  have slim: "submolt_feed_limit q = (case requested_limit q of NaN \<Rightarrow> NaN | Num n \<Rightarrow> Num (min n 100))"
    by (simp add: submolt_feed_limit_def Math_min_def split: js_number.splits)
  have off: "effective_offset q = (case requested_offset q of NaN \<Rightarrow> Num 0 | Num m \<Rightarrow> Num m)"
    by (simp add: effective_offset_def js_or_def split: js_number.splits)
  show ?thesis
    unfolding lim slim off pagination_in_bounds_def maxLimit_def
    by (cases "requested_limit q"; cases "requested_offset q") auto
qed

theorem pagination_effective_parameters_witness:
  "posts_limit (example_query None (Some ''500'') (Some ''abc'')) = Num 100
   \<and> submolt_feed_limit (example_query None (Some ''500'') (Some ''abc'')) = Num 100
   \<and> effective_offset (example_query None (Some ''500'') (Some ''abc'')) = Num 0
   \<and> pagination_in_bounds (posts_limit (example_query None (Some ''500'') (Some ''abc'')))
        (effective_offset (example_query None (Some ''500'') (Some ''abc'')))
   \<and> posts_limit (example_query None (Some ''x'') None) = NaN"
proof -
  let ?q = "example_query None (Some ''500'') (Some ''abc'')"
  let ?r = "example_query None (Some ''x'') None"
  have l: "requested_limit ?q = Num 500" and o: "requested_offset ?q = NaN"
    and x: "requested_limit ?r = NaN"
    by (simp_all add: requested_limit_def requested_offset_def example_query_def parse_simps)
  note t = pagination_effective_parameters [of ?q]
  from t l have "posts_limit ?q = Num (min 500 maxLimit) \<and> submolt_feed_limit ?q = Num (min 500 100)"
    by blast
  then have a: "posts_limit ?q = Num 100" and b: "submolt_feed_limit ?q = Num 100"
    by (simp_all add: maxLimit_def)
  from t o have c: "effective_offset ?q = Num 0" by blast
  from t l o have d: "pagination_in_bounds (posts_limit ?q) (effective_offset ?q)" by auto
  from pagination_effective_parameters [of ?r] x have e: "posts_limit ?r = NaN" by blast
  from a b c d e show ?thesis by blast
qed

section \<open>Ordering and the feed queries\<close>

lemma lex_ge_total: "lex_ge xs ys \<or> lex_ge ys xs"
proof (induction xs arbitrary: ys)
  case Nil
  then show ?case by simp
next
  case (Cons x xs)
  show ?case
  proof (cases ys)
    case Nil
    then show ?thesis by simp
  next
    case (Cons y ys')
    consider "x > y" | "x < y" | "x = y" by linarith
    then show ?thesis
    proof cases
      case 3
      with Cons Cons.IH [of ys'] show ?thesis by auto
    qed (simp_all add: Cons)
  qed
qed

lemma lex_ge_refl: "lex_ge xs xs"
  by (induction xs) auto

lemma lex_ge_trans:
  "length xs = length ys \<Longrightarrow> length ys = length zs \<Longrightarrow> lex_ge xs ys \<Longrightarrow> lex_ge ys zs
   \<Longrightarrow> lex_ge xs zs"
proof (induction xs arbitrary: ys zs)
  case Nil
  then show ?case by simp
next
  case (Cons x xs)
  from Cons.prems(1,2) obtain y ys' z zs' where ys: "ys = y # ys'" and zs: "zs = z # zs'"
    by (metis length_Suc_conv)
  from Cons.prems(3) ys have a: "x > y \<or> (x = y \<and> lex_ge xs ys')" by simp
  from Cons.prems(4) ys zs have b: "y > z \<or> (y = z \<and> lex_ge ys' zs')" by simp
  from Cons.prems(1,2) ys zs have l: "length xs = length ys'" "length ys' = length zs'"
    by simp_all
  have "x > z \<or> (x = z \<and> lex_ge xs zs')"
  proof (cases "x = y \<and> y = z")
    case True
    with a b have "lex_ge xs ys'" "lex_ge ys' zs'" by simp_all
    with l have "lex_ge xs zs'" by (rule Cons.IH)
    with True show ?thesis by simp
  next
    case False
    with a b have "x > z" by linarith
    then show ?thesis by simp
  qed
  with zs show ?case by simp
qed

lemma set_insert_desc: "set (insert_desc x ys) = insert x (set ys)"
  by (induction ys) auto

lemma mset_insert_desc: "mset (insert_desc x ys) = add_mset x (mset ys)"
  by (induction ys) auto

lemma mset_order_by: "mset (order_by rows) = mset rows"
  by (induction rows) (simp_all add: order_by_def mset_insert_desc)

lemma set_order_by: "set (order_by rows) = set rows"
  by (metis mset_order_by set_mset_mset)

lemma sorted_insert_desc:
  assumes "sorted_wrt (\<lambda>a b. lex_ge (fst a) (fst b)) ys"
    and "\<forall>r\<in>set (x # ys). length (fst r) = n"
  shows "sorted_wrt (\<lambda>a b. lex_ge (fst a) (fst b)) (insert_desc x ys)"
  using assms
proof (induction ys)
  case Nil
  then show ?case by simp
next
  case (Cons y ys)
  show ?case
  proof (cases "lex_ge (fst x) (fst y)")
    case True
    have "lex_ge (fst x) (fst z)" if "z \<in> set ys" for z
    proof -
      from Cons.prems(1) that have "lex_ge (fst y) (fst z)" by simp
      moreover from Cons.prems(2) that have "length (fst x) = length (fst y)"
        "length (fst y) = length (fst z)" by simp_all
      ultimately show ?thesis using True lex_ge_trans by blast
    qed
    with True Cons.prems(1) show ?thesis by simp
  next
    case False
    then have "lex_ge (fst y) (fst x)" using lex_ge_total by blast
    moreover have "sorted_wrt (\<lambda>a b. lex_ge (fst a) (fst b)) (insert_desc x ys)"
      using Cons by simp
    ultimately show ?thesis using False Cons.prems(1) by (simp add: set_insert_desc)
  qed
qed

lemma sorted_order_by:
  "\<forall>r\<in>set rows. length (fst r) = n \<Longrightarrow> sorted_wrt (\<lambda>a b. lex_ge (fst a) (fst b)) (order_by rows)"
proof (induction rows)
  case Nil
  then show ?case by (simp add: order_by_def)
next
  case (Cons x rows)
  then have "sorted_wrt (\<lambda>a b. lex_ge (fst a) (fst b)) (order_by rows)" by simp
  moreover have "\<forall>r\<in>set (x # order_by rows). length (fst r) = n"
    using Cons.prems by (simp add: set_order_by)
  ultimately have "sorted_wrt (\<lambda>a b. lex_ge (fst a) (fst b)) (insert_desc x (order_by rows))"
    by (rule sorted_insert_desc)
  then show ?case by (simp add: order_by_def)
qed

lemma order_by_sorted_id:
  "sorted_wrt (\<lambda>a b. lex_ge (fst a) (fst b)) rows \<Longrightarrow> order_by rows = rows"
proof (induction rows)
  case Nil
  then show ?case by (simp add: order_by_def)
next
  case (Cons x rows)
  then have "order_by rows = rows" by simp
  then have "order_by (x # rows) = insert_desc x rows" by (simp add: order_by_def)
  also have "\<dots> = x # rows" using Cons.prems by (cases rows) simp_all
  finally show ?case .
qed

lemma those_Some: "those xs = Some ys \<Longrightarrow> xs = map Some ys"
proof (induction xs arbitrary: ys)
  case Nil
  then show ?case by simp
next
  case (Cons x xs)
  then show ?case by (auto split: option.splits)
qed

lemma those_map_Some: "\<forall>x\<in>set xs. f x \<noteq> None \<Longrightarrow> those (map f xs) = Some (map (\<lambda>x. the (f x)) xs)"
  by (induction xs) auto

lemma sort_keys_length:
  "sort_keys now ob p = Some ks \<Longrightarrow> length ks = (if ob = OrderTop then 2 else 1)"
  by (cases ob) auto


lemma ordered_candidates_Some:
  assumes "ordered_candidates now ob cands = Some rows"
  shows "mset rows = mset cands"
    and "sorted_wrt (\<lambda>a b. lex_ge (the (sort_keys now ob (fst a))) (the (sort_keys now ob (fst b)))) rows"
    and "\<forall>r\<in>set cands. sort_keys now ob (fst r) \<noteq> None"
proof -
  let ?f = "\<lambda>r. sort_keys now ob (fst r)"
  from assms obtain ks where ks: "those (map ?f cands) = Some ks"
    and rows: "rows = map snd (order_by (zip ks cands))"
    by (auto simp: ordered_candidates_def)
  from ks have m: "map ?f cands = map Some ks" by (rule those_Some)
  then have len: "length ks = length cands" by (metis length_map)
  have ksi: "ks ! i = the (?f (cands ! i))" if "i < length cands" for i
  proof -
    have "map ?f cands ! i = map Some ks ! i" using m by simp
    with that len show ?thesis by simp
  qed
  have z: "zip ks cands = map (\<lambda>r. (the (?f r), r)) cands"
    using len ksi by (intro nth_equalityI) simp_all
  have some: "?f r = Some (the (?f r))" if "r \<in> set cands" for r
  proof -
    from m have "set (map ?f cands) = set (map Some ks)" by simp
    then have "?f ` set cands = Some ` set ks" by simp
    with that have "?f r \<in> Some ` set ks" by blast
    then show ?thesis by auto
  qed
  then show "\<forall>r\<in>set cands. sort_keys now ob (fst r) \<noteq> None"
    by (metis option.distinct(1))
  have "map snd (zip ks cands) = cands" using len by simp
  moreover have "mset (map snd (order_by (zip ks cands))) = mset (map snd (zip ks cands))"
    by (simp add: mset_order_by)
  ultimately show "mset rows = mset cands" unfolding rows by simp
  have "length (fst r) = (if ob = OrderTop then 2 else 1)" if "r \<in> set (zip ks cands)" for r
  proof -
    from that obtain c where c: "c \<in> set cands" "r = (the (?f c), c)"
      unfolding z by auto
    from some [OF c(1)] have "length (the (?f c)) = (if ob = OrderTop then 2 else 1)"
      by (rule sort_keys_length)
    with c show ?thesis by simp
  qed
  then have "\<forall>r\<in>set (zip ks cands). length (fst r) = (if ob = OrderTop then 2 else 1)"
    by blast
  then have s: "sorted_wrt (\<lambda>a b. lex_ge (fst a) (fst b)) (order_by (zip ks cands))"
    by (rule sorted_order_by)
  have key: "fst r = the (?f (snd r))" if "r \<in> set (order_by (zip ks cands))" for r
    using that unfolding set_order_by z by auto
  have "sorted_wrt (\<lambda>a b. lex_ge (the (?f (snd a))) (the (?f (snd b)))) (order_by (zip ks cands))"
    by (rule sorted_wrt_mono_rel [OF _ s]) (simp add: key)
  then show "sorted_wrt (\<lambda>a b. lex_ge (the (?f a)) (the (?f b))) rows"
    unfolding rows by (simp add: sorted_wrt_map)
qed


lemma run_feed_query_Inr:
  assumes "run_feed_query now ob limit offset cands = Inr page"
  shows "\<exists>rows l m. ordered_candidates now ob cands = Some rows \<and> limit = Num l \<and> offset = Num m
           \<and> 0 \<le> l \<and> 0 \<le> m \<and> page = map select_columns (take (nat l) (drop (nat m) rows))"
  using assms
  by (auto simp: run_feed_query_def sql_limit_offset_def
      split: option.splits js_number.splits if_splits)

lemma feed_page_ordered:
  assumes "run_feed_query now ob limit offset cands = Inr page" and "i < j" and "j < length page"
  shows "\<exists>a b. a \<in> set cands \<and> b \<in> set cands
           \<and> page ! i = select_columns a \<and> page ! j = select_columns b
           \<and> sort_keys now ob (fst a) \<noteq> None \<and> sort_keys now ob (fst b) \<noteq> None
           \<and> lex_ge (the (sort_keys now ob (fst a))) (the (sort_keys now ob (fst b)))"
proof -
  let ?G = "\<lambda>a b. lex_ge (the (sort_keys now ob (fst a))) (the (sort_keys now ob (fst b)))"
  from run_feed_query_Inr [OF assms(1)] obtain rows l m
    where oc: "ordered_candidates now ob cands = Some rows"
      and page: "page = map select_columns (take (nat l) (drop (nat m) rows))"
    by blast
  let ?w = "take (nat l) (drop (nat m) rows)"
  from ordered_candidates_Some [OF oc] have ms: "mset rows = mset cands"
    and srt: "sorted_wrt ?G rows"
    and keys: "\<forall>r\<in>set cands. sort_keys now ob (fst r) \<noteq> None"
    by blast+
  from srt have "sorted_wrt ?G ?w" by (simp add: sorted_wrt_take sorted_wrt_drop)
  moreover from assms(2,3) page have ij: "i < j" "j < length ?w" by simp_all
  ultimately have g: "?G (?w ! i) (?w ! j)" by (simp add: sorted_wrt_iff_nth_less)
  from ms have "set rows = set cands" by (rule mset_eq_setD)
  moreover have "set ?w \<subseteq> set rows"
    by (meson set_take_subset set_drop_subset subset_trans)
  ultimately have sub: "set ?w \<subseteq> set cands" by simp
  from ij have "i < length ?w" by simp
  then have "?w ! i \<in> set ?w" by (rule nth_mem)
  moreover from ij(2) have "?w ! j \<in> set ?w" by (rule nth_mem)
  ultimately have "?w ! i \<in> set ?w" "?w ! j \<in> set ?w" by blast+
  with sub have mem: "?w ! i \<in> set cands" "?w ! j \<in> set cands" by blast+
  from ij page have "page ! i = select_columns (?w ! i)" "page ! j = select_columns (?w ! j)"
    by simp_all
  with mem keys g show ?thesis by blast
qed

lemma item_of_row:
  "item_score (select_columns r) = score (fst r)"
  "item_created_at (select_columns r) = created_at (fst r)"
  "item_id (select_columns r) = post_id (fst r)"
  by (simp_all add: select_columns_def)

lemma hot_key_value:
  "hot_key s t = Some (log 10 (real_of_int (max \<bar>s\<bar> 1)) * sgn (real_of_int s) + t / 45000)"
  by (simp add: hot_key_def pg_log_def pg_div_def)

text \<open>Positions in a page ordered by \<open>p.score DESC, p.created_at DESC\<close>.\<close>

lemma top_page_order:
  assumes "run_feed_query now OrderTop limit offset cands = Inr page"
    and "i < length page" and "j < length page"
    and "item_score (page ! i) > item_score (page ! j)
         \<or> (item_score (page ! i) = item_score (page ! j)
             \<and> item_created_at (page ! i) > item_created_at (page ! j))"
  shows "i < j"
proof (rule ccontr)
  assume "\<not> i < j"
  with assms(4) have "j < i" by (cases "i = j") auto
  from feed_page_ordered [OF assms(1) this assms(2)] obtain a b
    where "page ! j = select_columns a" "page ! i = select_columns b"
      and "lex_ge (the (sort_keys now OrderTop (fst a))) (the (sort_keys now OrderTop (fst b)))"
    by blast
  then have "item_score (page ! j) > item_score (page ! i)
      \<or> (item_score (page ! j) = item_score (page ! i)
          \<and> item_created_at (page ! j) \<ge> item_created_at (page ! i))"
    by (auto simp: item_of_row)
  with assms(4) show False by auto
qed

lemma score_page_order:
  assumes "run_feed_query now OrderTopScoreOnly limit offset cands = Inr page"
    and "i < length page" and "j < length page"
    and "item_score (page ! i) > item_score (page ! j)"
  shows "i < j"
proof (rule ccontr)
  assume "\<not> i < j"
  with assms(4) have "j < i" by (cases "i = j") auto
  from feed_page_ordered [OF assms(1) this assms(2)] obtain a b
    where "page ! j = select_columns a" "page ! i = select_columns b"
      and "lex_ge (the (sort_keys now OrderTopScoreOnly (fst a)))
             (the (sort_keys now OrderTopScoreOnly (fst b)))"
    by blast
  then have "item_score (page ! j) \<ge> item_score (page ! i)"
    by (auto simp: item_of_row)
  with assms(4) show False by auto
qed

lemma hot_page_order:
  assumes "run_feed_query now OrderHot limit offset cands = Inr page"
    and "i < length page" and "j < length page"
    and "item_score (page ! i) = item_score (page ! j)"
    and "item_created_at (page ! i) > item_created_at (page ! j)"
  shows "i < j"
proof (rule ccontr)
  assume "\<not> i < j"
  with assms(5) have "j < i" by (cases "i = j") auto
  from feed_page_ordered [OF assms(1) this assms(2)] obtain a b
    where ab: "page ! j = select_columns a" "page ! i = select_columns b"
      and "lex_ge (the (sort_keys now OrderHot (fst a))) (the (sort_keys now OrderHot (fst b)))"
    by blast
  then have "the (hot_key (score (fst a)) (created_at (fst a)))
      \<ge> the (hot_key (score (fst b)) (created_at (fst b)))"
    by (auto simp: hot_key_value)
  moreover from ab assms(4) have "score (fst a) = score (fst b)" by (simp add: item_of_row)
  ultimately have "created_at (fst a) \<ge> created_at (fst b)"
    by (simp add: hot_key_value)
  with ab assms(5) show False by (simp add: item_of_row)
qed


lemma ordered_candidates_total:
  assumes "\<forall>r\<in>set cands. sort_keys now ob (fst r) \<noteq> None"
  shows "\<exists>rows. ordered_candidates now ob cands = Some rows"
  using those_map_Some [of cands "\<lambda>r. sort_keys now ob (fst r)"] assms
  by (simp add: ordered_candidates_def)

lemma join_single_agent:
  assumes "distinct (map agent_id as)" and "author_id p \<in> agent_id ` set as"
  shows "map fst (concat (map (\<lambda>a. if author_id p = agent_id a then [(p, a)] else []) as)) = [p]"
proof -
  from assms(2) obtain a where a: "a \<in> set as" "agent_id a = author_id p" by auto
  have "concat (map (\<lambda>a. if author_id p = agent_id a then [(p, a)] else []) as)
      = map (\<lambda>a. (p, a)) (filter (\<lambda>x. agent_id x = agent_id a) as)"
    unfolding a(2) by (induction as) auto
  also have "\<dots> = [(p, a)]"
    using filter_key_unique [OF assms(1) a(1)] by simp
  finally show ?thesis by simp
qed

lemma join_condition_out:
  "concat (map (\<lambda>a. if A a then if b then [f a] else [] else []) as)
     = (if b then concat (map (\<lambda>a. if A a then [f a] else []) as) else [])"
  by (induction as) simp_all

lemma posts_join_agents_posts:
  assumes "distinct (map agent_id (agents d))"
    and "\<forall>p\<in>set (posts d). author_id p \<in> agent_id ` set (agents d)"
  shows "map fst (posts_join_agents d c) = filter c (posts d)"
proof -
  let ?J = "\<lambda>p. concat (map (\<lambda>a. if author_id p = agent_id a
            then if c p then [(p, a)] else [] else []) (agents d))"
  have one: "map fst (?J p) = (if c p then [p] else [])"
    if "author_id p \<in> agent_id ` set (agents d)" for p
    unfolding join_condition_out using join_single_agent [OF assms(1) that] by simp
  have "map fst (concat (map ?J ps)) = filter c ps"
    if "\<forall>p\<in>set ps. author_id p \<in> agent_id ` set (agents d)" for ps
    using that
  proof (induction ps)
    case Nil
    then show ?case by simp
  next
    case (Cons p ps)
    then have "map fst (concat (map ?J ps)) = filter c ps" by simp
    moreover from Cons.prems have "map fst (?J p) = (if c p then [p] else [])"
      by (intro one) simp
    ultimately show ?case by (simp del: map_concat)
  qed
  from this [OF assms(2)] show ?thesis by (simp add: posts_join_agents_def del: map_concat)
qed


lemma personalized_keys: "sort_keys now (getPersonalizedFeed_orderBy s) p \<noteq> None"
  by (simp add: getPersonalizedFeed_orderBy_def hot_key_value)

lemma length_filter_key_count:
  "length (filter (\<lambda>x. f x = k) xs) = count (mset (map f xs)) k"
  by (induction xs) simp_all

lemma personalized_where_sets:
  "personalized_where d v p \<longleftrightarrow>
     submolt_id p \<in> sub_submolt_id ` {s \<in> set (subscriptions d). sub_agent_id s = v}
     \<or> author_id p \<in> followed_id ` {f \<in> set (follows d). follower_id f = v}"
  unfolding personalized_where_def by (auto simp: image_iff)

lemma personalized_rows:
  assumes "distinct (map post_id (posts d))"
    and "distinct (map agent_id (agents d))"
    and "\<forall>p\<in>set (posts d). author_id p \<in> agent_id ` set (agents d)"
  shows "\<exists>rows. ordered_candidates now (getPersonalizedFeed_orderBy s)
                  (posts_join_agents d (personalized_where d v)) = Some rows
           \<and> mset (map fst rows) = mset (filter (personalized_where d v) (posts d))
           \<and> distinct (map (\<lambda>r. post_id (fst r)) rows)"
proof -
  let ?cands = "posts_join_agents d (personalized_where d v)"
  obtain rows where oc: "ordered_candidates now (getPersonalizedFeed_orderBy s) ?cands = Some rows"
    using ordered_candidates_total [of ?cands now "getPersonalizedFeed_orderBy s"] personalized_keys
    by blast
  from ordered_candidates_Some(1) [OF oc] have "mset (map fst rows) = mset (map fst ?cands)"
    by (metis mset_map)
  then have m: "mset (map fst rows) = mset (filter (personalized_where d v) (posts d))"
    using posts_join_agents_posts [OF assms(2,3)] by simp
  have "distinct (map post_id (filter (personalized_where d v) (posts d)))"
    using assms(1) by (rule distinct_map_filter)
  moreover have "mset (map post_id (map fst rows))
      = mset (map post_id (filter (personalized_where d v) (posts d)))"
    using m by (metis mset_map)
  ultimately have "distinct (map post_id (map fst rows))"
    by (metis mset_eq_imp_distinct_iff)
  then have "distinct (map (\<lambda>r. post_id (fst r)) rows)" by (simp add: comp_def)
  with oc m show ?thesis by blast
qed

section \<open>Personalized feed: which posts it holds\<close>

text \<open>
  C5. Let post ids and agent ids be primary keys and every post's author an agent row
  (the join with \<open>agents\<close> drops a post without one). Then, for every sort mode:
  the whole feed of viewer \<open>v\<close> (offset 0 and a limit that is at least the number of
  posts) holds a post exactly once when its submolt is among the submolts \<open>v\<close>
  subscribes to or its author among the agents \<open>v\<close> follows, and not at all
  otherwise; a post that satisfies both conditions, or one of them through several
  rows, still comes once. Every window of the feed (any limit and offset that are not
  negative) holds only such posts, none of them twice.
\<close>

theorem personalized_feed_inclusion:
  assumes "distinct (map post_id (posts d))"
    and "distinct (map agent_id (agents d))"
    and "\<forall>p\<in>set (posts d). author_id p \<in> agent_id ` set (agents d)"
  shows "(\<forall>l. int (length (posts d)) \<le> l \<longrightarrow>
           (\<exists>page. getPersonalizedFeed d now v sort_by (Num l) (Num 0) = Inr page
              \<and> (\<forall>p\<in>set (posts d).
                    length (filter (\<lambda>it. item_id it = post_id p) page)
                    = (if submolt_id p \<in> sub_submolt_id ` {s \<in> set (subscriptions d). sub_agent_id s = v}
                          \<or> author_id p \<in> followed_id ` {f \<in> set (follows d). follower_id f = v}
                       then 1 else 0))))
       \<and> (\<forall>l m. 0 \<le> l \<and> 0 \<le> m \<longrightarrow>
           (\<exists>page. getPersonalizedFeed d now v sort_by (Num l) (Num m) = Inr page
              \<and> distinct (map item_id page)
              \<and> (\<forall>it\<in>set page. \<exists>p\<in>set (posts d). item_id it = post_id p
                    \<and> (submolt_id p \<in> sub_submolt_id ` {s \<in> set (subscriptions d). sub_agent_id s = v}
                        \<or> author_id p \<in> followed_id ` {f \<in> set (follows d). follower_id f = v}))))"
proof -
  let ?W = "personalized_where d v"
  let ?ob = "getPersonalizedFeed_orderBy sort_by"
  from personalized_rows [OF assms, of now sort_by v] obtain rows
    where oc: "ordered_candidates now ?ob (posts_join_agents d ?W) = Some rows"
      and m: "mset (map fst rows) = mset (filter ?W (posts d))"
      and dist: "distinct (map (\<lambda>r. post_id (fst r)) rows)"
    by blast
  have page: "getPersonalizedFeed d now v sort_by (Num l) (Num k)
      = Inr (map select_columns (take (nat l) (drop (nat k) rows)))"
    if "0 \<le> l" "0 \<le> k" for l k
    using that oc by (simp add: getPersonalizedFeed_def run_feed_query_def sql_limit_offset_def)
  have ids: "map item_id (map select_columns w) = map (\<lambda>r. post_id (fst r)) w" for w
    by (simp add: item_of_row)
  have full: "\<exists>page. getPersonalizedFeed d now v sort_by (Num l) (Num 0) = Inr page
      \<and> (\<forall>p\<in>set (posts d). length (filter (\<lambda>it. item_id it = post_id p) page)
            = (if submolt_id p \<in> sub_submolt_id ` {s \<in> set (subscriptions d). sub_agent_id s = v}
                  \<or> author_id p \<in> followed_id ` {f \<in> set (follows d). follower_id f = v}
               then 1 else 0))"
    if l: "int (length (posts d)) \<le> l" for l
  proof -
    have "length rows = length (map fst rows)" by simp
    also have "\<dots> = length (filter ?W (posts d))" using m by (metis size_mset)
    also have "\<dots> \<le> length (posts d)" by simp
    finally have "length rows \<le> nat l" using l by linarith
    then have p: "getPersonalizedFeed d now v sort_by (Num l) (Num 0) = Inr (map select_columns rows)"
      using page [of l 0] l by simp
    have "length (filter (\<lambda>it. item_id it = post_id p) (map select_columns rows))
        = (if ?W p then 1 else 0)" if "p \<in> set (posts d)" for p
    proof -
      have "length (filter (\<lambda>it. item_id it = post_id p) (map select_columns rows))
          = count (mset (map item_id (map select_columns rows))) (post_id p)"
        by (rule length_filter_key_count)
      also have "\<dots> = count (mset (map post_id (map fst rows))) (post_id p)"
      proof -
        have "map item_id (map select_columns rows) = map post_id (map fst rows)"
          by (simp add: item_of_row)
        then show ?thesis by (rule arg_cong)
      qed
      also have "\<dots> = count (mset (map post_id (filter ?W (posts d)))) (post_id p)"
        using m by (metis mset_map)
      also have "\<dots> = length (filter (\<lambda>q. post_id q = post_id p) (filter ?W (posts d)))"
        by (rule length_filter_key_count [symmetric])
      also have "\<dots> = length (filter ?W (filter (\<lambda>q. post_id q = post_id p) (posts d)))"
        by (simp add: conj_commute)
      also have "\<dots> = length (filter ?W [p])"
        using filter_key_unique [OF assms(1) that] by simp
      finally show ?thesis by simp
    qed
    with p show ?thesis by (simp add: personalized_where_sets)
  qed
  have window: "\<exists>page. getPersonalizedFeed d now v sort_by (Num l) (Num k) = Inr page
      \<and> distinct (map item_id page)
      \<and> (\<forall>it\<in>set page. \<exists>p\<in>set (posts d). item_id it = post_id p
            \<and> (submolt_id p \<in> sub_submolt_id ` {s \<in> set (subscriptions d). sub_agent_id s = v}
                \<or> author_id p \<in> followed_id ` {f \<in> set (follows d). follower_id f = v}))"
    if "0 \<le> l \<and> 0 \<le> k" for l k
  proof -
    let ?w = "take (nat l) (drop (nat k) rows)"
    have "distinct (map (\<lambda>r. post_id (fst r)) ?w)"
      using dist by (simp add: take_map [symmetric] drop_map [symmetric] distinct_drop)
    then have d1: "distinct (map item_id (map select_columns ?w))" unfolding ids .
    have "\<exists>p\<in>set (posts d). item_id it = post_id p \<and> ?W p"
      if "it \<in> set (map select_columns ?w)" for it
    proof -
      from that obtain r where r: "r \<in> set ?w" "it = select_columns r" by auto
      have "set ?w \<subseteq> set rows" by (meson set_take_subset set_drop_subset subset_trans)
      with r(1) have "fst r \<in> set (map fst rows)" by auto
      then have "fst r \<in># mset (map fst rows)" by simp
      then have "fst r \<in> set (filter ?W (posts d))" unfolding m by simp
      with r(2) show ?thesis by (auto simp: item_of_row)
    qed
    with d1 page [of l k] that show ?thesis by (simp add: personalized_where_sets)
  qed
  from full window show ?thesis by blast
qed

theorem personalized_feed_inclusion_witness:
  "(\<exists>page. getPersonalizedFeed example_feed_db 4000 ''a'' ''new'' (Num 25) (Num 0) = Inr page
      \<and> length (filter (\<lambda>it. item_id it = ''p1'') page) = 1
      \<and> length (filter (\<lambda>it. item_id it = ''p3'') page) = 1
      \<and> length (filter (\<lambda>it. item_id it = ''p4'') page) = 0)"
proof -
  let ?d = "example_feed_db"
  have pk: "distinct (map post_id (posts ?d))" "distinct (map agent_id (agents ?d))"
    and fk: "\<forall>p\<in>set (posts ?d). author_id p \<in> agent_id ` set (agents ?d)"
    and n: "int (length (posts ?d)) \<le> 25"
    by (simp_all add: example_simps)
  from personalized_feed_inclusion [OF pk fk, of 4000 "''a''" "''new''"] n
  obtain page where page: "getPersonalizedFeed ?d 4000 ''a'' ''new'' (Num 25) (Num 0) = Inr page"
    and cnt: "\<forall>p\<in>set (posts ?d).
        length (filter (\<lambda>it. item_id it = post_id p) page)
        = (if submolt_id p \<in> sub_submolt_id ` {s \<in> set (subscriptions ?d). sub_agent_id s = ''a''}
              \<or> author_id p \<in> followed_id ` {f \<in> set (follows ?d). follower_id f = ''a''}
           then 1 else 0)"
    by blast
  from cnt have "\<forall>p\<in>set (posts ?d).
        length (filter (\<lambda>it. item_id it = post_id p) page)
        = (if personalized_where ?d ''a'' p then 1 else 0)"
    by (simp only: personalized_where_sets)
  then have "length (filter (\<lambda>it. item_id it = ''p1'') page) = 1"
    and "length (filter (\<lambda>it. item_id it = ''p3'') page) = 1"
    and "length (filter (\<lambda>it. item_id it = ''p4'') page) = 0"
    by (simp_all add: personalized_where_def example_simps)
  with page show ?thesis by blast
qed

section \<open>Ranking keys are total\<close>

lemma rising_key_value:
  assumes "t \<le> now"
  shows "rising_key now s t = Some (real_of_int (s + 1) / ((now - t) / 3600 + 2) powr 1.5)"
proof -
  from assms have "(now - t) / 3600 \<ge> 0" by simp
  then have pos: "(now - t) / 3600 + 2 > 0" by linarith
  then have "pg_power ((now - t) / 3600 + 2) 1.5 = Some (((now - t) / 3600 + 2) powr 1.5)"
    by (simp add: pg_power_def)
  moreover from pos have "((now - t) / 3600 + 2) powr 1.5 \<noteq> 0" by simp
  ultimately show ?thesis by (simp add: rising_key_def pg_div_def)
qed

lemma sort_keys_total:
  assumes "created_at p \<le> now"
  shows "\<exists>ks. sort_keys now ob p = Some ks"
  using assms by (cases ob) (simp_all add: hot_key_value rising_key_value)

lemma posts_join_agents_subset: "r \<in> set (posts_join_agents d c) \<Longrightarrow> fst r \<in> set (posts d) \<and> c (fst r)"
  by (auto simp: posts_join_agents_def split: if_splits)

lemma getFeed_total:
  assumes "\<forall>p\<in>set (posts d). created_at p \<le> now" and "0 \<le> l" and "0 \<le> m"
  shows "\<exists>page. getFeed d now sort_by (Num l) (Num m) sub = Inr page"
proof -
  let ?cands = "posts_join_agents d (getFeed_where sub)"
  have "\<forall>r\<in>set ?cands. sort_keys now (getFeed_orderBy sort_by) (fst r) \<noteq> None"
    using assms(1) posts_join_agents_subset [of _ d "getFeed_where sub"]
      sort_keys_total [of _ now "getFeed_orderBy sort_by"] by fastforce
  then obtain rows where "ordered_candidates now (getFeed_orderBy sort_by) ?cands = Some rows"
    using ordered_candidates_total by blast
  with assms(2,3) show ?thesis
    by (simp add: getFeed_def run_feed_query_def sql_limit_offset_def)
qed

text \<open>
  Outside the valid timestamps the rising key does fail: for a post dated two hours
  after \<open>NOW()\<close> the power is 0 and the division raises, for one dated three hours
  after it the base of the power is negative. Without the guard the logarithm of the
  score 0 would raise as well.
\<close>

lemma rising_key_future_error: "rising_key now s (now + 7200) = None"
  by (simp add: rising_key_def pg_div_def pg_power_def)

lemma three_halves_not_int: "(3 / 2 :: real) \<notin> \<int>"
proof
  assume "(3 / 2 :: real) \<in> \<int>"
  then obtain k :: int where "(3 / 2 :: real) = of_int k" by (rule Ints_cases)
  then have "real_of_int 3 = real_of_int (2 * k)" by simp
  then have "3 = 2 * k" by (simp only: of_int_eq_iff)
  then show False by presburger
qed

lemma rising_key_future_error2: "rising_key now s (now + 10800) = None"
  using three_halves_not_int by (simp add: rising_key_def pg_div_def pg_power_def)

lemma log_guard_needed: "pg_log (real_of_int \<bar>0\<bar>) = None"
  by (simp add: pg_log_def)

text \<open>
  C9. Every ranking key is defined for every integer score and every valid timestamp,
  that is, a creation time that is not after the time \<open>NOW()\<close> of the query. The
  argument of the logarithm is \<open>max(|score|, 1)\<close>, on which \<open>LOG\<close> never raises; the
  hot key is defined for every score and timestamp; the rising key is defined for
  every score when the post is not dated in the future; so the keys of each of the
  five \<open>ORDER BY\<close> clauses evaluate, and \<open>getFeed\<close> returns a page under every sort
  mode once limit and offset are not negative.
\<close>

theorem ranking_keys_total:
  "pg_log (real_of_int (max \<bar>s\<bar> 1)) = Some (log 10 (real_of_int (max \<bar>s\<bar> 1)))
   \<and> hot_key s t = Some (log 10 (real_of_int (max \<bar>s\<bar> 1)) * sgn (real_of_int s) + t / 45000)
   \<and> (t \<le> now \<longrightarrow>
        rising_key now s t = Some (real_of_int (s + 1) / ((now - t) / 3600 + 2) powr 1.5))
   \<and> (created_at p \<le> now \<longrightarrow> (\<forall>ob. \<exists>ks. sort_keys now ob p = Some ks))
   \<and> ((\<forall>p\<in>set (posts d). created_at p \<le> now) \<and> 0 \<le> l \<and> 0 \<le> m \<longrightarrow>
        (\<exists>page. getFeed d now sort_by (Num l) (Num m) sub = Inr page))"
proof (intro conjI impI allI)
  show "pg_log (real_of_int (max \<bar>s\<bar> 1)) = Some (log 10 (real_of_int (max \<bar>s\<bar> 1)))"
    by (simp add: pg_log_def)
  show "hot_key s t = Some (log 10 (real_of_int (max \<bar>s\<bar> 1)) * sgn (real_of_int s) + t / 45000)"
    by (rule hot_key_value)
  show "rising_key now s t = Some (real_of_int (s + 1) / ((now - t) / 3600 + 2) powr 1.5)"
    if "t \<le> now" using that by (rule rising_key_value)
  show "\<exists>ks. sort_keys now ob p = Some ks" if "created_at p \<le> now" for ob
    using that by (rule sort_keys_total)
  show "\<exists>page. getFeed d now sort_by (Num l) (Num m) sub = Inr page"
    if "(\<forall>p\<in>set (posts d). created_at p \<le> now) \<and> 0 \<le> l \<and> 0 \<le> m"
    using that getFeed_total by blast
qed

theorem ranking_keys_total_witness:
  "hot_key 0 45000 = Some 1 \<and> hot_key (-10) 0 = Some (-1)
   \<and> rising_key 7200 (-5) 0 = Some (- 4 / 4 powr 1.5)
   \<and> (\<exists>page. getFeed example_feed_db 4000 ''rising'' (Num 25) (Num 0) None = Inr page)"
proof -
  have a: "hot_key 0 45000 = Some 1" using ranking_keys_total [of 0 45000] by simp
  have b: "hot_key (-10) 0 = Some (-1)" using ranking_keys_total [of "-10" 0] by simp
  have c: "rising_key 7200 (-5) 0 = Some (- 4 / 4 powr 1.5)"
    using ranking_keys_total [of "-5" 0 7200] by simp
  have "(\<forall>p\<in>set (posts example_feed_db). created_at p \<le> 4000) \<and> (0::int) \<le> 25 \<and> (0::int) \<le> 0"
    by (simp add: example_simps)
  then have d: "\<exists>page. getFeed example_feed_db 4000 ''rising'' (Num 25) (Num 0) None = Inr page"
    using ranking_keys_total [of _ _ 4000 _ example_feed_db 25 0 "''rising''" None] by blast
  from a b c d show ?thesis by blast
qed

section \<open>The hot ordering\<close>

lemma hot_page_desc:
  assumes "run_feed_query now OrderHot limit offset cands = Inr page"
    and "i < j" and "j < length page"
  shows "the (hot_key (item_score (page ! i)) (item_created_at (page ! i)))
         \<ge> the (hot_key (item_score (page ! j)) (item_created_at (page ! j)))"
proof -
  from feed_page_ordered [OF assms] obtain a b
    where ab: "page ! i = select_columns a" "page ! j = select_columns b"
      and "lex_ge (the (sort_keys now OrderHot (fst a))) (the (sort_keys now OrderHot (fst b)))"
    by blast
  then have "the (hot_key (score (fst a)) (created_at (fst a)))
      \<ge> the (hot_key (score (fst b)) (created_at (fst b)))"
    by (auto simp: hot_key_value)
  with ab show ?thesis by (simp add: item_of_row)
qed

lemma getFeed_orderBy_hot:
  "sort_by \<notin> {''new'', ''top'', ''rising''} \<Longrightarrow> getFeed_orderBy sort_by = OrderHot"
  by (simp add: getFeed_orderBy_def)

lemma getPersonalizedFeed_orderBy_hot:
  "sort_by \<notin> {''new'', ''top''} \<Longrightarrow> getPersonalizedFeed_orderBy sort_by = OrderHot"
  by (simp add: getPersonalizedFeed_orderBy_def)

text \<open>
  C3. The hot key of a post is
  \<open>sign(score) * log10(max(|score|, 1)) + secondsSinceEpoch(createdAt) / 45000\<close>, and
  it grows with the creation time at a fixed score. A feed that is sorted by hot (any
  sort value other than new, top and rising in \<open>getFeed\<close>; any other than new and top
  in \<open>getPersonalizedFeed\<close>) lists its items by descending key, so of two items with
  equal scores on a page the one created later stands before the other.
\<close>

theorem hot_feed_recency:
  "hot_key s t = Some (sgn (real_of_int s) * log 10 (real_of_int (max \<bar>s\<bar> 1)) + t / 45000)
   \<and> (t1 \<le> t2 \<longrightarrow> the (hot_key s t1) \<le> the (hot_key s t2))
   \<and> (\<forall>page i j. sort_by \<notin> {''new'', ''top'', ''rising''}
          \<and> getFeed d now sort_by limit offset sub = Inr page
          \<and> i < j \<and> j < length page
        \<longrightarrow> the (hot_key (item_score (page ! i)) (item_created_at (page ! i)))
            \<ge> the (hot_key (item_score (page ! j)) (item_created_at (page ! j))))
   \<and> (\<forall>page i j. sort_by \<notin> {''new'', ''top'', ''rising''}
          \<and> getFeed d now sort_by limit offset sub = Inr page
          \<and> i < length page \<and> j < length page
          \<and> item_score (page ! i) = item_score (page ! j)
          \<and> item_created_at (page ! i) > item_created_at (page ! j)
        \<longrightarrow> i < j)
   \<and> (\<forall>page i j. sort_by \<notin> {''new'', ''top''}
          \<and> getPersonalizedFeed d now v sort_by limit offset = Inr page
          \<and> i < length page \<and> j < length page
          \<and> item_score (page ! i) = item_score (page ! j)
          \<and> item_created_at (page ! i) > item_created_at (page ! j)
        \<longrightarrow> i < j)"
proof (intro conjI allI impI)
  show "hot_key s t = Some (sgn (real_of_int s) * log 10 (real_of_int (max \<bar>s\<bar> 1)) + t / 45000)"
    by (simp add: hot_key_value mult.commute)
  show "the (hot_key s t1) \<le> the (hot_key s t2)" if "t1 \<le> t2"
    using that by (simp add: hot_key_value)
next
  fix page i j
  assume h: "sort_by \<notin> {''new'', ''top'', ''rising''}
          \<and> getFeed d now sort_by limit offset sub = Inr page
          \<and> i < j \<and> j < length page"
  then have "run_feed_query now OrderHot limit offset
      (posts_join_agents d (getFeed_where sub)) = Inr page"
    using getFeed_orderBy_hot [of sort_by] by (simp add: getFeed_def)
  with h show "the (hot_key (item_score (page ! i)) (item_created_at (page ! i)))
            \<ge> the (hot_key (item_score (page ! j)) (item_created_at (page ! j)))"
    using hot_page_desc by blast
next
  fix page i j
  assume h: "sort_by \<notin> {''new'', ''top'', ''rising''}
          \<and> getFeed d now sort_by limit offset sub = Inr page
          \<and> i < length page \<and> j < length page
          \<and> item_score (page ! i) = item_score (page ! j)
          \<and> item_created_at (page ! i) > item_created_at (page ! j)"
  then have "run_feed_query now OrderHot limit offset
      (posts_join_agents d (getFeed_where sub)) = Inr page"
    using getFeed_orderBy_hot [of sort_by] by (simp add: getFeed_def)
  with h show "i < j" using hot_page_order by blast
next
  fix page i j
  assume h: "sort_by \<notin> {''new'', ''top''}
          \<and> getPersonalizedFeed d now v sort_by limit offset = Inr page
          \<and> i < length page \<and> j < length page
          \<and> item_score (page ! i) = item_score (page ! j)
          \<and> item_created_at (page ! i) > item_created_at (page ! j)"
  then have "run_feed_query now OrderHot limit offset
      (posts_join_agents d (personalized_where d v)) = Inr page"
    using getPersonalizedFeed_orderBy_hot [of sort_by] by (simp add: getPersonalizedFeed_def)
  with h show "i < j" using hot_page_order by blast
qed

theorem hot_feed_recency_witness:
  "the (hot_key 5 1000) \<le> the (hot_key 5 2000)
   \<and> getFeed (example_feed_db\<lparr>posts := [example_post ''p1'' ''b'' ''s1'' 5 1000,
                                         example_post ''p2'' ''b'' ''s2'' 5 2000]\<rparr>)
         4000 ''hot'' (Num 25) (Num 0) None
       = Inr [example_item ''p2'' ''b'' 5 2000, example_item ''p1'' ''b'' 5 1000]
   \<and> (0::nat) < 1"
proof -
  let ?d = "example_feed_db\<lparr>posts := [example_post ''p1'' ''b'' ''s1'' 5 1000,
                                       example_post ''p2'' ''b'' ''s2'' 5 2000]\<rparr>"
  let ?page = "[example_item ''p2'' ''b'' 5 2000, example_item ''p1'' ''b'' 5 1000]"
  have a: "the (hot_key 5 1000) \<le> the (hot_key 5 2000)"
    using hot_feed_recency [of 5 _ 1000 2000] by simp
  have b: "getFeed ?d 4000 ''hot'' (Num 25) (Num 0) None = Inr ?page"
    by (simp add: feed_simps example_simps)
  have "''hot'' \<notin> {''new'', ''top'', ''rising''} \<and> (0::nat) < length ?page \<and> (1::nat) < length ?page
      \<and> item_score (?page ! 0) = item_score (?page ! 1)
      \<and> item_created_at (?page ! 0) > item_created_at (?page ! 1)"
    by (simp add: example_simps)
  with b have c: "(0::nat) < 1"
    using hot_feed_recency [of _ _ _ _ "''hot''" ?d 4000 "Num 25" "Num 0" None] by blast
  from a b c show ?thesis by blast
qed

section \<open>The top ordering\<close>

text \<open>
  Under \<open>top\<close>, \<open>getFeed\<close> puts an item with a higher score first, and of two items with
  equal scores the one created later; \<open>getPersonalizedFeed\<close> puts an item with a higher
  score first.
\<close>

lemma getFeed_top_order:
  assumes "getFeed d now ''top'' limit offset sub = Inr page"
    and "i < length page" and "j < length page"
    and "item_score (page ! i) > item_score (page ! j)
         \<or> (item_score (page ! i) = item_score (page ! j)
             \<and> item_created_at (page ! i) > item_created_at (page ! j))"
  shows "i < j"
proof -
  from assms(1) have "run_feed_query now OrderTop limit offset
      (posts_join_agents d (getFeed_where sub)) = Inr page"
    by (simp add: getFeed_def getFeed_orderBy_def)
  then show ?thesis using assms(2-4) by (rule top_page_order)
qed

lemma getPersonalizedFeed_top_score_order:
  assumes "getPersonalizedFeed d now v ''top'' limit offset = Inr page"
    and "i < length page" and "j < length page"
    and "item_score (page ! i) > item_score (page ! j)"
  shows "i < j"
proof -
  from assms(1) have "run_feed_query now OrderTopScoreOnly limit offset
      (posts_join_agents d (personalized_where d v)) = Inr page"
    by (simp add: getPersonalizedFeed_def getPersonalizedFeed_orderBy_def)
  then show ?thesis using assms(2-4) by (rule score_page_order)
qed

text \<open>
  C4. In the personalized feed the clause for \<open>top\<close> is \<open>p.score DESC\<close> alone, so posts
  with equal scores come in the order the database happens to produce them. In the
  example the viewer's feed holds p1 and p2, both with score 5, p2 created later: the
  personalized feed lists p1 before p2, while the global feed, whose clause is
  \<open>p.score DESC, p.created_at DESC\<close>, lists p2 before p1.
\<close>

theorem personalized_top_ties_unordered:
  "getPersonalizedFeed example_feed_db 4000 ''a'' ''top'' (Num 25) (Num 0)
     = Inr [example_item ''p3'' ''c'' 9 500, example_item ''p1'' ''b'' 5 1000,
            example_item ''p2'' ''b'' 5 2000]
   \<and> getFeed example_feed_db 4000 ''top'' (Num 25) (Num 0) None
     = Inr [example_item ''p3'' ''c'' 9 500, example_item ''p4'' ''c'' 7 3000,
            example_item ''p2'' ''b'' 5 2000, example_item ''p1'' ''b'' 5 1000]"
  by (simp add: feed_simps example_simps)

theorem personalized_top_ties_unordered_witness:
  "getPersonalizedFeed example_feed_db 4000 ''a'' ''top'' (Num 25) (Num 0)
     \<noteq> Inr [example_item ''p3'' ''c'' 9 500, example_item ''p2'' ''b'' 5 2000,
            example_item ''p1'' ''b'' 5 1000]"
  using personalized_top_ties_unordered by (simp add: example_item_def)

section \<open>Vote deltas\<close>

lemma transition_table: "transition e r = (table_result e r, table_delta e r)"
  by (cases e; cases r) (auto split: direction.splits, (case_tac a; simp)+)

lemma applyVote_accepted:
  assumes "targets l (k, tid) = Some t" and "\<not> (forbid_own \<and> owner t = v)"
  shows "applyVote forbid_own l v tid k r =
     (l\<lparr>targets := (targets l)((k, tid) \<mapsto> t\<lparr>net_score := net_score t + table_delta (votes l (v, k, tid)) r\<rparr>),
        votes := (votes l)((v, k, tid) := table_result (votes l (v, k, tid)) r)\<rparr>,
      Inr (table_result (votes l (v, k, tid)) r, net_score t + table_delta (votes l (v, k, tid)) r))"
  using assms by (auto simp: applyVote_def transition_table Let_def)

lemma applyVote_refused:
  assumes "targets l (k, tid) = None \<or> (\<exists>t. targets l (k, tid) = Some t \<and> forbid_own \<and> owner t = v)"
  shows "fst (applyVote forbid_own l v tid k r) = l"
  using assms by (auto simp: applyVote_def)

lemma applyVote_other_target:
  assumes "(k, tid) \<noteq> tgt"
  shows "targets (fst (applyVote forbid_own l v tid k r)) tgt = targets l tgt"
    and "votes (fst (applyVote forbid_own l v tid k r)) (w, tgt) = votes l (w, tgt)"
  using assms by (auto simp: applyVote_def transition_table Let_def split: option.splits)


lemma applyVotes_score:
  assumes "targets l tgt = Some t"
  shows "stored_score (applyVotes forbid_own l ops) tgt
     = Some (net_score t
         + sum_list (expected_deltas (\<lambda>v. \<not> (forbid_own \<and> owner t = v)) tgt
                       (\<lambda>v. votes l (v, tgt)) ops))"
  using assms
proof (induction ops arbitrary: l t)
  case Nil
  then show ?case by (simp add: stored_score_def)
next
  case (Cons r rs)
  let ?l1 = "fst (applyVote forbid_own l (voter r) (target_id r) (target_kind r) (vote_direction r))"
  let ?acc = "\<lambda>t v. \<not> (forbid_own \<and> owner t = v)"
  show ?case
  proof (cases "(target_kind r, target_id r) = tgt")
    case False
    then have t1: "targets ?l1 tgt = Some t"
      and v1: "(\<lambda>v. votes ?l1 (v, tgt)) = (\<lambda>v. votes l (v, tgt))"
      using Cons.prems applyVote_other_target [of "target_kind r" "target_id r" tgt]
      by (simp_all add: fun_eq_iff)
    from Cons.IH [OF t1] v1 False show ?thesis by simp
  next
    case True
    show ?thesis
    proof (cases "?acc t (voter r)")
      case False
      with True Cons.prems have "?l1 = l"
        using applyVote_refused [of l "target_kind r" "target_id r" forbid_own "voter r"]
        by auto
      with Cons.IH [OF Cons.prems] True False show ?thesis by simp
    next
      case acc: True
      let ?e = "votes l (voter r, tgt)"
      let ?t1 = "t\<lparr>net_score := net_score t + table_delta ?e (vote_direction r)\<rparr>"
      from True Cons.prems have tg: "targets l (target_kind r, target_id r) = Some t" by simp
      from applyVote_accepted [OF tg acc, of "vote_direction r"] True
      have l1: "?l1 = l\<lparr>targets := (targets l)(tgt \<mapsto> ?t1),
            votes := (votes l)((voter r, tgt) := table_result ?e (vote_direction r))\<rparr>"
        by auto
      then have t1: "targets ?l1 tgt = Some ?t1" by simp
      have v1: "(\<lambda>v. votes ?l1 (v, tgt))
          = (\<lambda>v. votes l (v, tgt))(voter r := table_result ?e (vote_direction r))"
        unfolding l1 by (auto simp: fun_eq_iff)
      have o1: "owner ?t1 = owner t" by simp
      from Cons.IH [OF t1] show ?thesis
        unfolding v1 o1 using True acc by simp
    qed
  qed
qed


lemma vote_step_table:
  "vote_step forbid_own l v tgt e r (table_result e r) (table_delta e r)"
proof -
  obtain k tid where tgt: "tgt = (k, tid)" by (cases tgt)
  show ?thesis
    unfolding vote_step_def tgt
  proof (intro allI impI)
    fix t
    assume h: "targets l (k, tid) = Some t \<and> \<not> (forbid_own \<and> owner t = v)
        \<and> votes l (v, k, tid) = e"
    then have "targets l (k, tid) = Some t" "\<not> (forbid_own \<and> owner t = v)" by simp_all
    from applyVote_accepted [OF this, of r] h
    show "snd (applyVote forbid_own l v (snd (k, tid)) (fst (k, tid)) r)
              = Inr (table_result e r, net_score t + table_delta e r)
            \<and> stored_score (fst (applyVote forbid_own l v (snd (k, tid)) (fst (k, tid)) r)) (k, tid)
              = Some (net_score t + table_delta e r)
            \<and> votes (fst (applyVote forbid_own l v (snd (k, tid)) (fst (k, tid)) r)) (v, k, tid)
              = table_result e r"
      by (simp add: stored_score_def)
  qed
qed

text \<open>
  C1. On the ledger modelled from the spec, \<open>applyVote\<close> applies to the target's score
  the delta of the transition table for each pair of existing and requested
  direction: none to up +1, none to down -1, up to up -1 with the vote removed, down
  to down +1 with the vote removed, up to down -2, down to up +2. After any sequence
  of requests, by any voters and for any targets, the stored score of a target is its
  score before plus the sum of the deltas expected for the requests on that target
  that were accepted; a refused request and a request for another target change
  nothing of it.
\<close>

theorem applyVote_deltas:
  "vote_step forbid_own l v tgt None Up (Some Up) 1
   \<and> vote_step forbid_own l v tgt None Down (Some Down) (-1)
   \<and> vote_step forbid_own l v tgt (Some Up) Up None (-1)
   \<and> vote_step forbid_own l v tgt (Some Down) Down None 1
   \<and> vote_step forbid_own l v tgt (Some Up) Down (Some Down) (-2)
   \<and> vote_step forbid_own l v tgt (Some Down) Up (Some Up) 2
   \<and> (\<forall>t ops. targets l tgt = Some t \<longrightarrow>
         stored_score (applyVotes forbid_own l ops) tgt
         = Some (net_score t
             + sum_list (expected_deltas (\<lambda>v. \<not> (forbid_own \<and> owner t = v)) tgt
                           (\<lambda>v. votes l (v, tgt)) ops)))"
proof (intro conjI allI impI)
  show "vote_step forbid_own l v tgt None Up (Some Up) 1"
    using vote_step_table [of forbid_own l v tgt None Up] by simp
  show "vote_step forbid_own l v tgt None Down (Some Down) (-1)"
    using vote_step_table [of forbid_own l v tgt None Down] by simp
  show "vote_step forbid_own l v tgt (Some Up) Up None (-1)"
    using vote_step_table [of forbid_own l v tgt "Some Up" Up] by simp
  show "vote_step forbid_own l v tgt (Some Down) Down None 1"
    using vote_step_table [of forbid_own l v tgt "Some Down" Down] by simp
  show "vote_step forbid_own l v tgt (Some Up) Down (Some Down) (-2)"
    using vote_step_table [of forbid_own l v tgt "Some Up" Down] by simp
  show "vote_step forbid_own l v tgt (Some Down) Up (Some Up) 2"
    using vote_step_table [of forbid_own l v tgt "Some Down" Up] by simp
  show "stored_score (applyVotes forbid_own l ops) tgt
         = Some (net_score t
             + sum_list (expected_deltas (\<lambda>v. \<not> (forbid_own \<and> owner t = v)) tgt
                           (\<lambda>v. votes l (v, tgt)) ops))"
    if "targets l tgt = Some t" for t ops
    using that by (rule applyVotes_score)
qed

theorem applyVote_deltas_witness:
  "stored_score
     (applyVotes False example_ledger
        [vote_for ''x'' (PostTarget, ''p1'') Up, vote_for ''y'' (PostTarget, ''p1'') Up,
         vote_for ''x'' (PostTarget, ''p1'') Down, vote_for ''z'' (PostTarget, ''p1'') Down,
         vote_for ''y'' (PostTarget, ''p1'') Up, vote_for ''z'' (PostTarget, ''p9'') Up])
     (PostTarget, ''p1'') = Some (-2)
   \<and> snd (applyVote False example_ledger ''x'' ''p1'' PostTarget Up) = Inr (Some Up, 1)"
proof -
  let ?tgt = "(PostTarget, ''p1'')"
  let ?ops = "[vote_for ''x'' ?tgt Up, vote_for ''y'' ?tgt Up, vote_for ''x'' ?tgt Down,
         vote_for ''z'' ?tgt Down, vote_for ''y'' ?tgt Up, vote_for ''z'' (PostTarget, ''p9'') Up]"
  note t = applyVote_deltas [of False example_ledger "''x''" ?tgt]
  have tg: "targets example_ledger ?tgt = Some \<lparr>owner = ''a'', net_score = 0\<rparr>"
    by (simp add: example_ledger_def)
  from t tg have "stored_score (applyVotes False example_ledger ?ops) ?tgt
      = Some (net_score \<lparr>owner = ''a'', net_score = 0\<rparr>
          + sum_list (expected_deltas (\<lambda>v. \<not> (False \<and> owner \<lparr>owner = ''a'', net_score = 0\<rparr> = v)) ?tgt
                        (\<lambda>v. votes example_ledger (v, ?tgt)) ?ops))"
    by blast
  then have a: "stored_score (applyVotes False example_ledger ?ops) ?tgt = Some (-2)"
    by (simp add: vote_for_def example_ledger_def)
  from t have "vote_step False example_ledger ''x'' ?tgt None Up (Some Up) 1" by blast
  with tg have b: "snd (applyVote False example_ledger ''x'' ''p1'' PostTarget Up) = Inr (Some Up, 1)"
    by (simp add: vote_step_def example_ledger_def)
  from a b show ?thesis by blast
qed

section \<open>Toggling a vote\<close>

lemma applyVotes_single:
  assumes "targets l tgt = Some t" and "\<not> (forbid_own \<and> owner t = v)"
  shows "applyVotes forbid_own l (vote_for v tgt r # rs) =
     applyVotes forbid_own
       (l\<lparr>targets := (targets l)(tgt \<mapsto> t\<lparr>net_score := net_score t + table_delta (votes l (v, tgt)) r\<rparr>),
          votes := (votes l)((v, tgt) := table_result (votes l (v, tgt)) r)\<rparr>) rs"
proof -
  obtain k tid where tgt: "tgt = (k, tid)" by (cases tgt)
  from assms(1) have "targets l (k, tid) = Some t" by (simp add: tgt)
  from applyVote_accepted [OF this assms(2), of r] show ?thesis
    by (simp add: vote_for_def tgt)
qed

lemma ledger_unchanged:
  assumes "targets l tgt = Some t" and "votes l key = e"
  shows "l\<lparr>targets := (targets l)(tgt \<mapsto> t), votes := (votes l)(key := e)\<rparr> = l"
proof -
  from assms(1) have "(targets l)(tgt \<mapsto> t) = targets l" by (rule map_upd_triv)
  moreover from assms(2) have "(votes l)(key := e) = votes l" by auto
  ultimately show ?thesis by simp
qed

lemma vote_twice_same:
  assumes "targets l tgt = Some t" and "\<not> (forbid_own \<and> owner t = v)"
    and "votes l (v, tgt) \<noteq> Some (opposite r)"
  shows "applyVotes forbid_own l [vote_for v tgt r, vote_for v tgt r] = l"
proof -
  let ?e = "votes l (v, tgt)"
  let ?t1 = "t\<lparr>net_score := net_score t + table_delta ?e r\<rparr>"
  let ?l1 = "l\<lparr>targets := (targets l)(tgt \<mapsto> ?t1),
          votes := (votes l)((v, tgt) := table_result ?e r)\<rparr>"
  have s1: "applyVotes forbid_own l [vote_for v tgt r, vote_for v tgt r]
      = applyVotes forbid_own ?l1 [vote_for v tgt r]"
    using assms(1,2) by (rule applyVotes_single)
  have t1: "targets ?l1 tgt = Some ?t1" and o1: "\<not> (forbid_own \<and> owner ?t1 = v)"
    using assms(2) by simp_all
  have e1: "votes ?l1 (v, tgt) = table_result ?e r" by simp
  consider "?e = None" | "?e = Some Up" | "?e = Some Down"
    by (metis direction.exhaust option.exhaust)
  then have "table_result (table_result ?e r) r = ?e
      \<and> table_delta ?e r + table_delta (table_result ?e r) r = 0"
    using assms(3) by cases (cases r; simp add: opposite_def)+
  then have rt: "table_result (table_result ?e r) r = ?e"
    and zero: "table_delta ?e r + table_delta (table_result ?e r) r = 0"
    by simp_all
  have "applyVotes forbid_own ?l1 [vote_for v tgt r]
      = l\<lparr>targets := (targets l)(tgt \<mapsto> t), votes := (votes l)((v, tgt) := ?e)\<rparr>"
    unfolding applyVotes_single [OF t1 o1] e1 rt using zero by (simp add: algebra_simps)
  also have "\<dots> = l" using assms(1) by (intro ledger_unchanged) simp_all
  finally show ?thesis using s1 by simp
qed

text \<open>
  C2. On the ledger modelled from the spec, for a fresh target (score 0, no vote of
  the voter): one upvote gives score 1; a second upvote gives score 0 and no vote, and
  the whole ledger is as before; up then down gives score -1 with the vote down, in
  one step; up, down, down ends with score 0 and no vote, the ledger as before. In
  general two votes of the same direction in a row leave the ledger as it was whenever
  the voter's vote before them was not the opposite direction.
\<close>

theorem vote_toggle_identity:
  "(\<forall>t. targets l tgt = Some t \<and> net_score t = 0 \<and> votes l (v, tgt) = None
          \<and> \<not> (forbid_own \<and> owner t = v)
      \<longrightarrow> stored_score (applyVotes forbid_own l [vote_for v tgt Up]) tgt = Some 1
        \<and> stored_score (applyVotes forbid_own l [vote_for v tgt Up, vote_for v tgt Up]) tgt = Some 0
        \<and> votes (applyVotes forbid_own l [vote_for v tgt Up, vote_for v tgt Up]) (v, tgt) = None
        \<and> applyVotes forbid_own l [vote_for v tgt Up, vote_for v tgt Up] = l
        \<and> stored_score (applyVotes forbid_own l [vote_for v tgt Up, vote_for v tgt Down]) tgt
            = Some (-1)
        \<and> votes (applyVotes forbid_own l [vote_for v tgt Up, vote_for v tgt Down]) (v, tgt)
            = Some Down
        \<and> stored_score
             (applyVotes forbid_own l [vote_for v tgt Up, vote_for v tgt Down, vote_for v tgt Down])
             tgt = Some 0
        \<and> votes
             (applyVotes forbid_own l [vote_for v tgt Up, vote_for v tgt Down, vote_for v tgt Down])
             (v, tgt) = None
        \<and> applyVotes forbid_own l [vote_for v tgt Up, vote_for v tgt Down, vote_for v tgt Down] = l)
   \<and> (\<forall>t r. targets l tgt = Some t \<and> \<not> (forbid_own \<and> owner t = v)
          \<and> votes l (v, tgt) \<noteq> Some (opposite r)
      \<longrightarrow> applyVotes forbid_own l [vote_for v tgt r, vote_for v tgt r] = l)"
proof (intro conjI allI impI)
  fix t r
  assume "targets l tgt = Some t \<and> \<not> (forbid_own \<and> owner t = v)
          \<and> votes l (v, tgt) \<noteq> Some (opposite r)"
  then show "applyVotes forbid_own l [vote_for v tgt r, vote_for v tgt r] = l"
    using vote_twice_same by blast
next
  fix t
  assume h: "targets l tgt = Some t \<and> net_score t = 0 \<and> votes l (v, tgt) = None
          \<and> \<not> (forbid_own \<and> owner t = v)"
  then have tg: "targets l tgt = Some t" and ok: "\<not> (forbid_own \<and> owner t = v)"
    and fresh: "net_score t = 0" "votes l (v, tgt) = None"
    by simp_all
  let ?t1 = "t\<lparr>net_score := 1\<rparr>"
  let ?l1 = "l\<lparr>targets := (targets l)(tgt \<mapsto> ?t1), votes := (votes l)((v, tgt) \<mapsto> Up)\<rparr>"
  have s1: "applyVotes forbid_own l (vote_for v tgt Up # rs) = applyVotes forbid_own ?l1 rs" for rs
    unfolding applyVotes_single [OF tg ok] using fresh by simp
  have t1: "targets ?l1 tgt = Some ?t1" and o1: "\<not> (forbid_own \<and> owner ?t1 = v)"
    and e1: "votes ?l1 (v, tgt) = Some Up"
    using ok by simp_all
  let ?t2 = "t\<lparr>net_score := -1\<rparr>"
  let ?l2 = "l\<lparr>targets := (targets l)(tgt \<mapsto> ?t2), votes := (votes l)((v, tgt) \<mapsto> Down)\<rparr>"
  have s2: "applyVotes forbid_own ?l1 (vote_for v tgt Down # rs) = applyVotes forbid_own ?l2 rs" for rs
    unfolding applyVotes_single [OF t1 o1] e1 by simp
  have ident: "applyVotes forbid_own l [vote_for v tgt Up, vote_for v tgt Up] = l"
    using vote_twice_same [OF tg ok, of Up] fresh by (simp add: opposite_def)
  have t2: "targets ?l2 tgt = Some ?t2" and o2: "\<not> (forbid_own \<and> owner ?t2 = v)"
    and e2: "votes ?l2 (v, tgt) = Some Down"
    using ok by simp_all
  have "applyVotes forbid_own ?l2 [vote_for v tgt Down]
      = l\<lparr>targets := (targets l)(tgt \<mapsto> t), votes := (votes l)((v, tgt) := None)\<rparr>"
    unfolding applyVotes_single [OF t2 o2] e2 using fresh by (cases t) simp
  also have "\<dots> = l" using tg fresh by (intro ledger_unchanged) simp_all
  finally have three: "applyVotes forbid_own l
      [vote_for v tgt Up, vote_for v tgt Down, vote_for v tgt Down] = l"
    unfolding s1 s2 .
  show "stored_score (applyVotes forbid_own l [vote_for v tgt Up]) tgt = Some 1"
    unfolding s1 by (simp add: stored_score_def)
  show "stored_score (applyVotes forbid_own l [vote_for v tgt Up, vote_for v tgt Up]) tgt = Some 0"
    unfolding ident using tg fresh by (simp add: stored_score_def)
  show "votes (applyVotes forbid_own l [vote_for v tgt Up, vote_for v tgt Up]) (v, tgt) = None"
    unfolding ident using fresh by simp
  show "applyVotes forbid_own l [vote_for v tgt Up, vote_for v tgt Up] = l" by (rule ident)
  show "stored_score (applyVotes forbid_own l [vote_for v tgt Up, vote_for v tgt Down]) tgt
            = Some (-1)"
    unfolding s1 s2 by (simp add: stored_score_def)
  show "votes (applyVotes forbid_own l [vote_for v tgt Up, vote_for v tgt Down]) (v, tgt)
            = Some Down"
    unfolding s1 s2 by simp
  show "stored_score
             (applyVotes forbid_own l [vote_for v tgt Up, vote_for v tgt Down, vote_for v tgt Down])
             tgt = Some 0"
    unfolding three using tg fresh by (simp add: stored_score_def)
  show "votes
             (applyVotes forbid_own l [vote_for v tgt Up, vote_for v tgt Down, vote_for v tgt Down])
             (v, tgt) = None"
    unfolding three using fresh by simp
  show "applyVotes forbid_own l [vote_for v tgt Up, vote_for v tgt Down, vote_for v tgt Down] = l"
    by (rule three)
qed


theorem vote_toggle_identity_witness:
  "applyVotes False example_ledger
     [vote_for ''x'' (PostTarget, ''p1'') Up, vote_for ''x'' (PostTarget, ''p1'') Up]
     = example_ledger
   \<and> stored_score
        (applyVotes False example_ledger
           [vote_for ''x'' (PostTarget, ''p1'') Up, vote_for ''x'' (PostTarget, ''p1'') Down,
            vote_for ''x'' (PostTarget, ''p1'') Down])
        (PostTarget, ''p1'') = Some 0
   \<and> votes
        (applyVotes False example_ledger
           [vote_for ''x'' (PostTarget, ''p1'') Up, vote_for ''x'' (PostTarget, ''p1'') Down,
            vote_for ''x'' (PostTarget, ''p1'') Down])
        (''x'', PostTarget, ''p1'') = None
   \<and> stored_score
        (applyVotes False example_ledger
           [vote_for ''x'' (PostTarget, ''p1'') Up, vote_for ''x'' (PostTarget, ''p1'') Down])
        (PostTarget, ''p1'') = Some (-1)"
proof -
  let ?tgt = "(PostTarget, ''p1'')"
  let ?t = "\<lparr>owner = ''a'', net_score = 0\<rparr>"
  have h: "targets example_ledger ?tgt = Some ?t \<and> net_score ?t = 0
      \<and> votes example_ledger (''x'', ?tgt) = None \<and> \<not> (False \<and> owner ?t = ''x'')"
    by (simp add: example_ledger_def)
  from vote_toggle_identity [of example_ledger ?tgt "''x''" False] h
  show ?thesis by blast
qed

end
